theory Spec2Isabelle
  imports Main "HOL-Library.AList" "HOL-Library.Word"
begin

section \<open>Common data\<close>

text \<open>
  A Python exception is its class name and its message. Every class that occurs below
  derives from \<^verbatim>\<open>Exception\<close>.
\<close>

datatype py_exn = PyExn (exn_class: string) (exn_msg: string)

type_synonym bytes = "8 word list"

text \<open>\<^verbatim>\<open>str(n)\<close> for a Python int: decimal digits, a minus sign for a negative number.\<close>

definition digit_char :: "nat \<Rightarrow> char" where
  "digit_char d = ''0123456789'' ! d"

fun str_nat :: "nat \<Rightarrow> string" where
  "str_nat n = (if n < 10 then [digit_char n] else str_nat (n div 10) @ [digit_char (n mod 10)])"

declare str_nat.simps [simp del]

definition str_int :: "int \<Rightarrow> string" where
  "str_int i = (if i < 0 then CHR ''-'' # str_nat (nat (- i)) else str_nat (nat i))"

section \<open>The node launcher: \<^verbatim>\<open>_setup\<close>\<close>

text \<open>
  \<^verbatim>\<open>subprocess.Popen(args, stdout=subprocess.DEVNULL)\<close>: the process handle is the
  argument vector the subprocess was started with. An unknown network raises before
  \<^verbatim>\<open>Popen\<close> is reached, so the result is the exception and no process.
\<close>

datatype popen = Popen (popen_args: "string list")

definition setup_node :: "int \<Rightarrow> string \<Rightarrow> py_exn + popen" where
  "setup_node port network_id =
     (if network_id = ''anvil'' then
        Inr (Popen [''anvil'', ''--port'', str_int port, ''--prune-history'',
                    ''--gas-price'', ''0'', ''--base-fee'', ''0'', ''--steps-tracing''])
      else if network_id = ''ganache'' then
        Inr (Popen [''ganache-cli'', ''--port'', str_int port, ''-g'', ''0'', ''-k'', ''istanbul''])
      else if network_id = ''hardhat'' then
        Inr (Popen [''npx'', ''hardhat'', ''node'', ''--port'', str_int port])
      else
        Inl (PyExn ''ValueError'' (''Unknown network ID '' @ [CHR 0x27] @ network_id @ [CHR 0x27])))"

section \<open>The worker: \<^verbatim>\<open>_run\<close>, \<^verbatim>\<open>_run_core\<close> and the exception handler\<close>

text \<open>
  The worker is modelled by the sequence of its effects, in program order. The scoped
  resources of \<^verbatim>\<open>ctx_managers\<close> are named by their constructor and the log file.
\<close>

datatype ctx_manager =
    StdoutTee string
  | StderrTee string
  | LogFile string
  | redirect_stdout string
  | redirect_stderr string

datatype coverage = Coverage

datatype pickled = Pickle py_exn

definition pickle_dumps :: "py_exn \<Rightarrow> pickled" where
  "pickle_dumps e = Pickle e"

fun pickle_loads :: "pickled \<Rightarrow> py_exn" where
  "pickle_loads (Pickle e) = e"

datatype test_arg = CoverageProvider coverage | NoneArg

datatype event =
    PicklingInstall
  | RandomSeed bytes
  | Spawn "string list"
  | SetExceptionHandler
  | ConnectRefused
  | Sleep
  | Connected int
  | LoggingBasicConfig string
  | OpenWrite string
  | Enter ctx_manager
  | Exit ctx_manager
  | PrintSeed bytes int
  | ChainReset
  | LogWarning string
  | CallTest "test_arg list"
  | ErrSend "pickled option"
  | FinishedSet
  | ErrRecv bool
  | StdinReopen
  | AttachDebugger py_exn
  | GenExit
  | OpenAppend string
  | Kill
  | CloseAppend string

text \<open>The two exceptions the connect loop of \<^verbatim>\<open>_run\<close> catches.\<close>

datatype refusal = ConnectionRefusedError | URLError

fun refusal_exn :: "refusal \<Rightarrow> py_exn" where
  "refusal_exn ConnectionRefusedError = PyExn ''ConnectionRefusedError'' []"
| "refusal_exn URLError = PyExn ''URLError'' []"

text \<open>
  What the worker meets and does not decide: how the connection attempts go (one entry
  per refused attempt: the exception, and \<open>True\<close> when more than ten seconds have
  passed after its sleep), whether the chain can be reset, the declared parameters and
  the name of the test function, whether the test body returns or raises, and the
  decision the orchestrator answers with.
\<close>

record worker_env =
  refusals :: "(refusal \<times> bool) list"
  reset_supported :: bool
  test_params :: "string list"
  test_name :: string
  test_raises :: "py_exn option"
  attach_reply :: bool

text \<open>
  The connect loop of \<^verbatim>\<open>_run\<close>. The result says whether the loop left by
  \<^verbatim>\<open>break\<close> (\<open>None\<close>) or re-raised the refusal.
\<close>

fun connect_loop :: "int \<Rightarrow> (refusal \<times> bool) list \<Rightarrow> event list \<times> py_exn option" where
  "connect_loop port [] = ([Connected port], None)"
| "connect_loop port ((exn, expired) # rest) =
     (if expired then ([ConnectRefused, GenExit, Sleep], Some (refusal_exn exn))
      else
        (let (evs, r) = connect_loop port rest in (ConnectRefused # GenExit # Sleep # evs, r)))"

text \<open>The loop over \<^verbatim>\<open>inspect.getfullargspec(fuzz_test).args\<close> in \<^verbatim>\<open>_run_core\<close>.\<close>

fun build_args :: "string \<Rightarrow> coverage option \<Rightarrow> string list \<Rightarrow> test_arg list \<Rightarrow> py_exn + test_arg list" where
  "build_args fname cov [] args = Inr args"
| "build_args fname cov (arg # rest) args =
     (if arg = ''coverage'' then
        (case cov of
           Some c \<Rightarrow> build_args fname cov rest (args @ [CoverageProvider c])
         | None \<Rightarrow> build_args fname cov rest (args @ [NoneArg]))
      else
        Inl (PyExn ''ValueError''
          (''Unable to set value for '' @ [CHR 0x27] @ arg @ [CHR 0x27] @ '' argument in '' @
           [CHR 0x27] @ fname @ [CHR 0x27] @ '' function.'')))"

text \<open>
  The nested function \<^verbatim>\<open>exception_handler\<close> of \<^verbatim>\<open>_run\<close>. It leaves every
  entry of \<^verbatim>\<open>ctx_managers\<close> in list order and clears the list, sends the pickled
  exception, sets the event, receives the decision, attaches the debugger when told to,
  and sets the event again. The result is its effects and the list it leaves behind.
\<close>

definition exception_handler ::
  "worker_env \<Rightarrow> ctx_manager list \<Rightarrow> py_exn \<Rightarrow> event list \<times> ctx_manager list" where
  "exception_handler env ctx_managers e =
     (map Exit ctx_managers @
      [ErrSend (Some (pickle_dumps e)), FinishedSet, ErrRecv (attach_reply env)] @
      (if attach_reply env then [StdinReopen, AttachDebugger e] else []) @
      [FinishedSet],
      [])"

text \<open>
  Modelled from the spec: \<^verbatim>\<open>set_exception_handler\<close> of \<^verbatim>\<open>woke.testing.globals\<close> and
  the place that calls the installed handler are not among the sources. Section 4.3 of
  the specification says that on an unhandled exception inside the test body the worker
  runs the handshake; so the handler is called once, with the exception, where the test
  body raises, and the exception then leaves \<^verbatim>\<open>_run_core\<close>.
\<close>

definition call_test ::
  "worker_env \<Rightarrow> ctx_manager list \<Rightarrow> event list \<times> py_exn option \<times> ctx_manager list" where
  "call_test env ctx_managers =
     (case test_raises env of
        None \<Rightarrow> ([], None, ctx_managers)
      | Some e \<Rightarrow>
          (let (evs, cms) = exception_handler env ctx_managers e in (evs, Some e, cms)))"

definition run_core ::
  "worker_env \<Rightarrow> int \<Rightarrow> bytes \<Rightarrow> coverage option \<Rightarrow> ctx_manager list \<Rightarrow>
   event list \<times> py_exn option \<times> ctx_manager list" where
  "run_core env index random_seed cov ctx_managers =
     (let start = PrintSeed random_seed index #
            (if reset_supported env then [ChainReset]
             else [ChainReset, LogWarning ''Development chain does not support resetting''])
      in case build_args (test_name env) cov (test_params env) [] of
           Inl err \<Rightarrow> (start, Some err, ctx_managers)
         | Inr args \<Rightarrow>
             (case call_test env ctx_managers of
                (evs, Some e, cms) \<Rightarrow> (start @ CallTest args # evs, Some e, cms)
              | (evs, None, cms) \<Rightarrow>
                  (start @ CallTest args # evs @ [ErrSend None, FinishedSet], None, cms)))"

text \<open>
  What the \<^verbatim>\<open>try\<close> block of \<^verbatim>\<open>_run\<close> appends to \<^verbatim>\<open>ctx_managers\<close>, in the
  order of the \<^verbatim>\<open>append\<close> calls.
\<close>

definition log_scopes :: "bool \<Rightarrow> string \<Rightarrow> ctx_manager list" where
  "log_scopes tee log_file =
     (if tee then [StdoutTee log_file, StderrTee log_file]
      else [LogFile log_file, redirect_stdout log_file, redirect_stderr log_file])"

text \<open>
  \<^verbatim>\<open>_run\<close>. The second component is the exception that leaves the function, if any:
  one raised by \<^verbatim>\<open>_setup\<close> or by the connect loop, both before the
  \<^verbatim>\<open>try\<close>. Whatever \<^verbatim>\<open>_run_core\<close> raises is swallowed by
  \<^verbatim>\<open>except Exception: pass\<close>, and the \<^verbatim>\<open>finally\<close> block leaves what is still
  in \<^verbatim>\<open>ctx_managers\<close>, closes the connection and kills the node inside a
  \<^verbatim>\<open>with\<close> block that appends to the log file (\<open>OpenAppend\<close> on entry,
  \<open>CloseAppend\<close> on exit).
\<close>

definition run ::
  "worker_env \<Rightarrow> int \<Rightarrow> int \<Rightarrow> bytes \<Rightarrow> string \<Rightarrow> bool \<Rightarrow> string \<Rightarrow> coverage option \<Rightarrow>
   event list \<times> py_exn option" where
  "run env index port random_seed log_file tee network_id cov =
     (let pre = [PicklingInstall, RandomSeed random_seed] in
      case setup_node port network_id of
        Inl err \<Rightarrow> (pre, Some err)
      | Inr chain_process \<Rightarrow>
          (case connect_loop port (refusals env) of
             (cevs, Some err) \<Rightarrow>
               (pre @ Spawn (popen_args chain_process) # SetExceptionHandler # cevs, Some err)
           | (cevs, None) \<Rightarrow>
               (let ctx_managers = log_scopes tee log_file;
                    opening =
                      (if tee then [] else [LoggingBasicConfig log_file, OpenWrite log_file]);
                    (core, raised, left) = run_core env index random_seed cov ctx_managers
                in (pre @ Spawn (popen_args chain_process) # SetExceptionHandler # cevs @
                    opening @ map Enter ctx_managers @ core @
                    map Exit left @ [GenExit, OpenAppend log_file, Kill, CloseAppend log_file],
                    None))))"

text \<open>Readings of a trace: the scopes entered, the scopes left, the messages sent.\<close>

definition entered :: "event list \<Rightarrow> ctx_manager list" where
  "entered tr = concat (map (\<lambda>ev. case ev of Enter c \<Rightarrow> [c] | _ \<Rightarrow> []) tr)"

definition exited :: "event list \<Rightarrow> ctx_manager list" where
  "exited tr = concat (map (\<lambda>ev. case ev of Exit c \<Rightarrow> [c] | _ \<Rightarrow> []) tr)"

definition sent :: "event list \<Rightarrow> pickled option list" where
  "sent tr = concat (map (\<lambda>ev. case ev of ErrSend m \<Rightarrow> [m] | _ \<Rightarrow> []) tr)"

section \<open>Per-function coverage: \<^verbatim>\<open>_compute_coverage_per_function\<close>\<close>

text \<open>
  A dictionary is an association list in insertion order; assigning to a key that is
  present keeps its place, assigning to a new key appends it (\<open>AList.update\<close>).
\<close>

record fn_rec =
  name :: string
  coverageHits :: int

type_synonym ide_cov = "(string \<times> fn_rec list) list"

definition fn_names_of :: "ide_cov \<Rightarrow> string list" where
  "fn_names_of ide_cov =
     concat (map (\<lambda>(fn_path, path_rec). map name (filter (\<lambda>r. coverageHits r > 0) path_rec)) ide_cov)"

fun cover_path :: "string list \<Rightarrow> string \<Rightarrow> fn_rec list \<Rightarrow> (string \<times> int) list \<Rightarrow> (string \<times> int) list" where
  "cover_path fn_names fn_path [] funcs_cov = funcs_cov"
| "cover_path fn_names fn_path (r # path_rec) funcs_cov =
     (if coverageHits r = 0 then cover_path fn_names fn_path path_rec funcs_cov
      else if count_list fn_names (name r) > 1 then
        cover_path fn_names fn_path path_rec
          (AList.update (fn_path @ '':'' @ name r) (coverageHits r) funcs_cov)
      else
        cover_path fn_names fn_path path_rec (AList.update (name r) (coverageHits r) funcs_cov))"

fun cover_items :: "string list \<Rightarrow> ide_cov \<Rightarrow> (string \<times> int) list \<Rightarrow> (string \<times> int) list" where
  "cover_items fn_names [] funcs_cov = funcs_cov"
| "cover_items fn_names ((fn_path, path_rec) # items) funcs_cov =
     cover_items fn_names items (cover_path fn_names fn_path path_rec funcs_cov)"

definition compute_coverage_per_function :: "ide_cov \<Rightarrow> (string \<times> int) list" where
  "compute_coverage_per_function ide_cov = cover_items (fn_names_of ide_cov) ide_cov []"

section \<open>The orchestrator: \<^verbatim>\<open>fuzz\<close>\<close>

subsection \<open>Seeds and workers\<close>

text \<open>
  \<^verbatim>\<open>os.urandom(n)\<close> reads the next \<open>n\<close> bytes of the system's entropy, an endless
  stream of bytes.
\<close>

type_synonym entropy = "nat \<Rightarrow> 8 word"

definition os_urandom :: "nat \<Rightarrow> entropy \<Rightarrow> bytes \<times> entropy" where
  "os_urandom n src = (map src [0..<n], \<lambda>k. src (k + n))"

fun append_random :: "nat \<Rightarrow> bytes list \<Rightarrow> entropy \<Rightarrow> bytes list \<times> entropy" where
  "append_random 0 random_seeds src = (random_seeds, src)"
| "append_random (Suc k) random_seeds src =
     (let (b, src') = os_urandom 8 src in append_random k (random_seeds @ [b]) src')"

definition make_seeds :: "int \<Rightarrow> bytes list \<Rightarrow> entropy \<Rightarrow> bytes list \<times> entropy" where
  "make_seeds process_count seeds src =
     (if int (length seeds) < process_count
      then append_random (nat (process_count - int (length seeds))) seeds src
      else (seeds, src))"

text \<open>\<^verbatim>\<open>range(n)\<close> is empty for a negative \<open>n\<close>.\<close>

definition range_py :: "int \<Rightarrow> int list" where
  "range_py n = map int [0..<nat n]"

text \<open>The arguments \<^verbatim>\<open>fuzz\<close> gives to \<^verbatim>\<open>_run\<close> in the process it starts.\<close>

record worker =
  w_index :: int
  w_port :: int
  w_seed :: bytes
  w_log :: string
  w_tee :: bool
  w_network :: string
  w_cov :: "coverage option"

text \<open>
  \<^verbatim>\<open>sanitize_filename\<close> is a function of the library pathvalidate; it is a parameter
  here.
\<close>

definition log_path :: "(string \<Rightarrow> string) \<Rightarrow> string \<Rightarrow> string \<Rightarrow> string \<Rightarrow> int \<Rightarrow> string" where
  "log_path sanitize_filename logs_dir module fname i =
     logs_dir @ ''/'' @ sanitize_filename (module @ ''.'' @ fname @ ''_'' @ str_int i @ ''.ansi'')"

definition spawn ::
  "(string \<Rightarrow> string) \<Rightarrow> string \<Rightarrow> string \<Rightarrow> string \<Rightarrow> bool \<Rightarrow> string \<Rightarrow> int \<Rightarrow>
   int \<Rightarrow> bytes list \<Rightarrow> worker list" where
  "spawn sanitize_filename logs_dir module fname passive network_id cov_proc_num
     process_count random_seeds =
     (let empty_coverage = (if cov_proc_num \<noteq> 0 then Some Coverage else None) in
      map (\<lambda>(i, seed).
            \<lparr>w_index = i, w_port = 8545 + i, w_seed = seed,
             w_log = log_path sanitize_filename logs_dir module fname i,
             w_tee = (passive \<and> i = 0), w_network = network_id,
             w_cov = (if i < cov_proc_num then empty_coverage else None)\<rparr>)
          (zip (range_py process_count) random_seeds))"

subsection \<open>What the orchestrator sees of a worker\<close>

text \<open>
  A coverage snapshot is the pair a worker puts on its queue: the coverage of the full
  run and the coverage of the last transaction, each from file to position to record.
\<close>

type_synonym ide_position = "int \<times> int \<times> int \<times> int"

type_synonym export = "(string \<times> (ide_position \<times> fn_rec) list) list"

type_synonym snapshot = "export \<times> export"

text \<open>
  The entry \<^verbatim>\<open>(p, finished_event, err_parent_conn, cov_queue)\<close> of
  \<^verbatim>\<open>processes\<close>, by what the other process does with it:
  \<^item> \<open>finished_after\<close>: how many bounded waits on the event still return false before
    one returns true; \<open>None\<close> when the worker never sets the event;
  \<^item> \<open>err_conn\<close>: the messages the worker writes to its end of the pipe;
  \<^item> \<open>resolves\<close>: whether the worker sets the event again after the orchestrator has
    cleared it and answered;
  \<^item> \<open>cov_queue\<close>: the snapshots found on the queue at each visit of the worker.
\<close>

record handle =
  finished_after :: "nat option"
  err_conn :: "pickled option list"
  resolves :: bool
  cov_queue :: "snapshot list list"

datatype effect =
    ConsolePrintSeed bytes int
  | ProcessStart int
  | ProgressStop
  | ProgressStart
  | ProgressAddTask nat
  | ConsolePrintTraceback py_exn
  | ConsolePrintFailed int
  | Input
  | EventClear int
  | AttachSend int bool
  | ProgressThrRem int
  | WriteFile string ide_cov
  | ProgressCoverageInfo "(string \<times> int) list"
  | QueueClose int
  | ProgressFinished

text \<open>
  The state of \<^verbatim>\<open>fuzz\<close> inside its loop: the two dictionaries of latest snapshots,
  the lines still to be read from standard input, and what has been shown, sent and
  written so far.
\<close>

record orch =
  exported_coverages :: "(int \<times> export) list"
  exported_coverages_per_trans :: "(int \<times> export) list"
  stdin :: "string list"
  out :: "effect list"

text \<open>\<^verbatim>\<open>e.wait(0.125)\<close>\<close>

definition event_wait :: "handle \<Rightarrow> bool \<times> handle" where
  "event_wait h =
     (case finished_after h of
        None \<Rightarrow> (False, h)
      | Some 0 \<Rightarrow> (True, h)
      | Some (Suc n) \<Rightarrow> (False, h\<lparr>finished_after := Some n\<rparr>))"

subsection \<open>The attach decision\<close>

text \<open>
  The loop \<^verbatim>\<open>while attach is None\<close>: one \<^verbatim>\<open>input\<close> call per round, which
  raises \<^verbatim>\<open>EOFError\<close> at the end of standard input. The result is the decision or
  the exception, the lines left, and one \<open>Input\<close> per prompt shown.
\<close>

fun ask_attach :: "string list \<Rightarrow> (py_exn + bool) \<times> string list \<times> effect list" where
  "ask_attach [] = (Inl (PyExn ''EOFError'' []), [], [Input])"
| "ask_attach (response # rest) =
     (if response = ''y'' then (Inr True, rest, [Input])
      else if response = ''n'' then (Inr False, rest, [Input])
      else (let (r, rest', outs) = ask_attach rest in (r, rest', Input # outs)))"

text \<open>
  The branch \<^verbatim>\<open>if exception_info is not None\<close> up to the assignment of
  \<^verbatim>\<open>attach\<close>.
\<close>

definition decide_attach ::
  "bool \<Rightarrow> int \<Rightarrow> py_exn \<Rightarrow> string list \<Rightarrow> (py_exn + bool) \<times> string list \<times> effect list" where
  "decide_attach passive i exception_info inp =
     (if \<not> passive \<or> i = 0 then
        (let (r, inp', prompts) = ask_attach inp in
         (r, inp',
          (if \<not> passive then [ProgressStop] else []) @
          [ConsolePrintTraceback exception_info, ConsolePrintFailed i] @ prompts))
      else (Inr False, inp, []))"

text \<open>
  The branch \<^verbatim>\<open>if finished\<close> of the loop body, for worker \<open>i\<close>. \<open>None\<close>: the
  orchestrator blocks for ever, in \<^verbatim>\<open>err_parent_conn.recv()\<close> on a pipe nothing was
  written to, or in the unbounded \<^verbatim>\<open>e.wait()\<close> for a worker that does not answer.
  \<open>remaining\<close> is \<^verbatim>\<open>len(processes) - len(to_be_removed)\<close> after the append.
\<close>

definition on_finished ::
  "bool \<Rightarrow> int \<Rightarrow> int \<Rightarrow> handle \<Rightarrow> orch \<Rightarrow> (py_exn + handle \<times> orch) option" where
  "on_finished passive remaining i h st =
     (case err_conn h of
        [] \<Rightarrow> None
      | msg # msgs \<Rightarrow>
          (let h1 = h\<lparr>err_conn := msgs\<rparr>;
               tail = ProgressThrRem remaining # (if i = 0 then [ProgressStart] else [])
           in case msg of
                None \<Rightarrow> Some (Inr (h1, st\<lparr>out := out st @ tail\<rparr>))
              | Some p \<Rightarrow>
                  (case decide_attach passive i (pickle_loads p) (stdin st) of
                     (Inl err, inp, outs) \<Rightarrow> Some (Inl err)
                   | (Inr attach, inp, outs) \<Rightarrow>
                       if resolves h1 then
                         Some (Inr (h1, st\<lparr>stdin := inp,
                           out := out st @ outs @ [EventClear i, AttachSend i attach] @
                             (if \<not> passive then [ProgressStart] else []) @ tail\<rparr>))
                       else None)))"

subsection \<open>Draining the coverage queue\<close>

text \<open>
  \<^verbatim>\<open>export_merged_ide_coverage\<close> of \<^verbatim>\<open>woke.testing.coverage\<close> is not among the
  sources; it is the parameter \<open>merge\<close>. \<^verbatim>\<open>sorted(..., key=lambda x: x[1],
  reverse=True)\<close> is a stable sort by falling count.
\<close>

definition coverage_info :: "bool \<Rightarrow> bool \<Rightarrow> ide_cov \<Rightarrow> (string \<times> int) list" where
  "coverage_info passive verbose_coverage res =
     (if \<not> passive \<and> verbose_coverage
      then sort_key (\<lambda>x. - snd x) (compute_coverage_per_function res)
      else [])"

text \<open>
  The loop \<^verbatim>\<open>while not cov_queue.empty()\<close> over the snapshots on the queue of
  worker \<open>i\<close>. A snapshot that is not the last one on the queue is dropped by
  \<^verbatim>\<open>continue\<close>; the last one replaces the entries of worker \<open>i\<close>, and both
  aggregates are merged again and written.
\<close>

fun drain ::
  "(export list \<Rightarrow> ide_cov) \<Rightarrow> bool \<Rightarrow> bool \<Rightarrow> int \<Rightarrow> snapshot list \<Rightarrow> orch \<Rightarrow> orch" where
  "drain merge passive verbose_coverage i [] st = st"
| "drain merge passive verbose_coverage i (exported_coverage # queue) st =
     (if queue \<noteq> [] then drain merge passive verbose_coverage i queue st
      else
        (let cov = AList.update i (fst exported_coverage) (exported_coverages st);
             cov_per_trans =
               AList.update i (snd exported_coverage) (exported_coverages_per_trans st);
             res = merge (map snd cov);
             res_per_trans = merge (map snd cov_per_trans)
         in drain merge passive verbose_coverage i queue
              (st\<lparr>exported_coverages := cov,
                  exported_coverages_per_trans := cov_per_trans,
                  out := out st @
                    (if res \<noteq> []
                     then [WriteFile ''woke-coverage.cov'' res,
                           WriteFile ''woke-coverage-per-trans.cov'' res_per_trans]
                     else []) @
                    [ProgressCoverageInfo (coverage_info passive verbose_coverage res)]\<rparr>)))"

subsection \<open>The poll loop\<close>

definition queue_get :: "handle \<Rightarrow> snapshot list \<times> handle" where
  "queue_get h =
     (case cov_queue h of
        [] \<Rightarrow> ([], h)
      | batch # later \<Rightarrow> (batch, h\<lparr>cov_queue := later\<rparr>))"

text \<open>One pass of the body of \<^verbatim>\<open>for i, (p, e, err_parent_conn, cov_queue) in processes.items()\<close>.\<close>

definition visit ::
  "(export list \<Rightarrow> ide_cov) \<Rightarrow> bool \<Rightarrow> bool \<Rightarrow> int \<Rightarrow> int \<Rightarrow> handle \<Rightarrow> orch \<Rightarrow>
   (py_exn + bool \<times> handle \<times> orch) option" where
  "visit merge passive verbose_coverage remaining i h st =
     (let (finished, h1) = event_wait h in
      case (if finished then on_finished passive (remaining - 1) i h1 st
            else Some (Inr (h1, st))) of
        None \<Rightarrow> None
      | Some (Inl err) \<Rightarrow> Some (Inl err)
      | Some (Inr (h2, st2)) \<Rightarrow>
          (let (queue, h3) = queue_get h2;
               st3 = drain merge passive verbose_coverage i queue st2
           in Some (Inr (finished, h3,
                if finished then st3\<lparr>out := out st3 @ [QueueClose i]\<rparr> else st3))))"

text \<open>
  The \<^verbatim>\<open>for\<close> loop over \<^verbatim>\<open>processes.items()\<close> followed by the removal of
  \<^verbatim>\<open>to_be_removed\<close>: the workers not yet visited, those kept, and the number of
  workers not yet in \<^verbatim>\<open>to_be_removed\<close>.
\<close>

fun visit_all ::
  "(export list \<Rightarrow> ide_cov) \<Rightarrow> bool \<Rightarrow> bool \<Rightarrow> (int \<times> handle) list \<Rightarrow> (int \<times> handle) list \<Rightarrow>
   int \<Rightarrow> orch \<Rightarrow> (py_exn + (int \<times> handle) list \<times> orch) option" where
  "visit_all merge passive verbose_coverage [] kept remaining st = Some (Inr (kept, st))"
| "visit_all merge passive verbose_coverage ((i, h) # todo) kept remaining st =
     (case visit merge passive verbose_coverage remaining i h st of
        None \<Rightarrow> None
      | Some (Inl err) \<Rightarrow> Some (Inl err)
      | Some (Inr (finished, h', st')) \<Rightarrow>
          if finished
          then visit_all merge passive verbose_coverage todo kept (remaining - 1) st'
          else visit_all merge passive verbose_coverage todo (kept @ [(i, h')]) remaining st')"

text \<open>
  \<^verbatim>\<open>while len(processes)\<close>. \<open>None\<close> is a loop that does not return.
\<close>

partial_function (option) poll_loop ::
  "(export list \<Rightarrow> ide_cov) \<Rightarrow> bool \<Rightarrow> bool \<Rightarrow> (int \<times> handle) list \<Rightarrow> orch \<Rightarrow>
   (py_exn + orch) option" where
  "poll_loop merge passive verbose_coverage processes st =
     (if processes = [] then Some (Inr (st\<lparr>out := out st @ [ProgressFinished]\<rparr>))
      else
        Option.bind
          (visit_all merge passive verbose_coverage processes []
             (int (length processes)) st)
          (\<lambda>r. case r of
                 Inl err \<Rightarrow> Some (Inl err)
               | Inr (processes', st') \<Rightarrow>
                   poll_loop merge passive verbose_coverage processes' st'))"

declare poll_loop.simps [code]

subsection \<open>The whole of \<^verbatim>\<open>fuzz\<close>\<close>

text \<open>
  What a started process shows to the orchestrator, read off the effects of
  \<^verbatim>\<open>_run\<close> in that process: the event is set if \<^verbatim>\<open>_run\<close> sets it, the pipe
  holds what \<^verbatim>\<open>_run\<close> sends, and the worker answers the decision if it sets the
  event a second time. \<open>delay\<close> is the number of bounded waits that pass before the
  event is seen, \<open>snaps\<close> what the test puts on the coverage queue.
\<close>

definition observed :: "nat \<Rightarrow> snapshot list list \<Rightarrow> event list \<times> py_exn option \<Rightarrow> handle" where
  "observed delay snaps r =
     \<lparr>finished_after = (if FinishedSet \<in> set (fst r) then Some delay else None),
      err_conn = sent (fst r),
      resolves = (2 \<le> count_list (fst r) FinishedSet),
      cov_queue = snaps\<rparr>"

definition start_process :: "worker_env \<Rightarrow> nat \<Rightarrow> snapshot list list \<Rightarrow> worker \<Rightarrow> int \<times> handle" where
  "start_process env delay snaps w =
     (w_index w,
      observed delay snaps
        (run env (w_index w) (w_port w) (w_seed w) (w_log w) (w_tee w) (w_network w) (w_cov w)))"

text \<open>
  \<^verbatim>\<open>fuzz\<close>, with the test function given by its module and name, and with what the
  call does not decide as further arguments: the entropy, the lines on standard input,
  and for each worker index its environment, its delay and its snapshots.
\<close>

definition fuzz ::
  "(string \<Rightarrow> string) \<Rightarrow> (export list \<Rightarrow> ide_cov) \<Rightarrow> entropy \<Rightarrow> string list \<Rightarrow>
   (int \<Rightarrow> worker_env \<times> nat \<times> snapshot list list) \<Rightarrow>
   string \<Rightarrow> string \<Rightarrow> int \<Rightarrow> bytes list \<Rightarrow> string \<Rightarrow> bool \<Rightarrow> string \<Rightarrow> int \<Rightarrow> bool \<Rightarrow>
   (py_exn + orch) option" where
  "fuzz sanitize_filename merge src inp world
     module fname process_count seeds logs_dir passive network_id cov_proc_num verbose_coverage =
     (let random_seeds = fst (make_seeds process_count seeds src);
          workers = spawn sanitize_filename logs_dir module fname passive network_id cov_proc_num
                      process_count random_seeds;
          processes =
            map (\<lambda>w. case world (w_index w) of (env, delay, snaps) \<Rightarrow> start_process env delay snaps w)
              workers
      in poll_loop merge passive verbose_coverage processes
           \<lparr>exported_coverages = [], exported_coverages_per_trans = [], stdin = inp,
            out = concat (map (\<lambda>w. [ConsolePrintSeed (w_seed w) (w_index w), ProcessStart (w_index w)])
                    workers) @
                  (if passive then [ProgressStop] else []) @
                  [ProgressAddTask (length processes)]\<rparr>)"

section \<open>Notions used in the statements\<close>

text \<open>
  The records of a coverage mapping in the order of the two nested loops, each with the
  path of its file, and the key under which \<^verbatim>\<open>_compute_coverage_per_function\<close>
  stores a record.
\<close>

definition entries :: "ide_cov \<Rightarrow> (string \<times> fn_rec) list" where
  "entries ide_cov = concat (map (\<lambda>(fn_path, path_rec). map (Pair fn_path) path_rec) ide_cov)"

definition key_of :: "string list \<Rightarrow> string \<times> fn_rec \<Rightarrow> string" where
  "key_of fn_names e =
     (if count_list fn_names (name (snd e)) > 1 then fst e @ '':'' @ name (snd e)
      else name (snd e))"

definition assignments :: "string list \<Rightarrow> (string \<times> fn_rec) list \<Rightarrow> (string \<times> int) list" where
  "assignments fn_names es =
     map (\<lambda>e. (key_of fn_names e, coverageHits (snd e)))
       (filter (\<lambda>e. coverageHits (snd e) \<noteq> 0) es)"

definition strip_zero :: "ide_cov \<Rightarrow> ide_cov" where
  "strip_zero ide_cov =
     map (\<lambda>(fn_path, path_rec). (fn_path, filter (\<lambda>r. coverageHits r \<noteq> 0) path_rec)) ide_cov"

text \<open>
  A worker answers if it sets its event at some time, has written to its pipe by then,
  and, when what it wrote is an exception, sets the event again after the decision. The
  number of polls left for a list of workers is the number of bounded waits the
  orchestrator still spends on them.
\<close>

definition answering :: "int \<times> handle \<Rightarrow> bool" where
  "answering ph \<longleftrightarrow>
     finished_after (snd ph) \<noteq> None \<and>
     (case err_conn (snd ph) of
        [] \<Rightarrow> False
      | None # msgs \<Rightarrow> True
      | Some p # msgs \<Rightarrow> resolves (snd ph))"

definition polls_left :: "(int \<times> handle) list \<Rightarrow> nat" where
  "polls_left processes =
     sum_list (map (\<lambda>ph. case finished_after (snd ph) of None \<Rightarrow> 0 | Some n \<Rightarrow> Suc n) processes)"

section \<open>Example inputs\<close>

definition example_env :: worker_env where
  "example_env =
     \<lparr>refusals = [(ConnectionRefusedError, False)], reset_supported = True, test_params = [''coverage''],
      test_name = ''test_fuzz'', test_raises = Some (PyExn ''AssertionError'' ''invariant broken''),
      attach_reply = False\<rparr>"

definition example_handle :: handle where
  "example_handle =
     \<lparr>finished_after = Some 0,
      err_conn = [Some (Pickle (PyExn ''AssertionError'' ''invariant broken''))],
      resolves = True, cov_queue = []\<rparr>"

definition example_orch :: orch where
  "example_orch =
     \<lparr>exported_coverages = [], exported_coverages_per_trans = [],
      stdin = [''maybe'', ''n'', ''later''], out = []\<rparr>"

definition example_cov :: ide_cov where
  "example_cov =
     [(''a.sol'', [\<lparr>name = ''f'', coverageHits = 3\<rparr>, \<lparr>name = ''g'', coverageHits = 0\<rparr>]),
      (''b.sol'', [\<lparr>name = ''f'', coverageHits = 2\<rparr>, \<lparr>name = ''h'', coverageHits = 1\<rparr>])]"

definition silent_handle :: handle where
  "silent_handle = \<lparr>finished_after = None, err_conn = [], resolves = False, cov_queue = []\<rparr>"

definition empty_orch :: orch where
  "empty_orch =
     \<lparr>exported_coverages = [], exported_coverages_per_trans = [], stdin = [], out = []\<rparr>"

section \<open>Facts about traces\<close>

lemma entered_simps [simp]:
  "entered [] = []"
  "entered (ev # tr) = (case ev of Enter c \<Rightarrow> [c] | _ \<Rightarrow> []) @ entered tr"
  "entered (xs @ ys) = entered xs @ entered ys"
  by (simp_all add: entered_def)

lemma exited_simps [simp]:
  "exited [] = []"
  "exited (ev # tr) = (case ev of Exit c \<Rightarrow> [c] | _ \<Rightarrow> []) @ exited tr"
  "exited (xs @ ys) = exited xs @ exited ys"
  by (simp_all add: exited_def)

lemma sent_simps [simp]:
  "sent [] = []"
  "sent (ev # tr) = (case ev of ErrSend m \<Rightarrow> [m] | _ \<Rightarrow> []) @ sent tr"
  "sent (xs @ ys) = sent xs @ sent ys"
  by (simp_all add: sent_def)

lemma map_Enter_read [simp]:
  "entered (map Enter cs) = cs" "exited (map Enter cs) = []" "sent (map Enter cs) = []"
  by (induction cs) auto

lemma map_Exit_read [simp]:
  "entered (map Exit cs) = []" "exited (map Exit cs) = cs" "sent (map Exit cs) = []"
  by (induction cs) auto

lemma connect_loop_events:
  "set (fst (connect_loop port rs)) \<subseteq> {ConnectRefused, GenExit, Sleep, Connected port}"
  by (induction port rs rule: connect_loop.induct) (auto split: prod.splits)

lemma connect_loop_quiet:
  "entered (fst (connect_loop port rs)) = []"
  "exited (fst (connect_loop port rs)) = []"
  "sent (fst (connect_loop port rs)) = []"
  by (induction port rs rule: connect_loop.induct) (auto split: prod.splits)

lemma run_core_enters_nothing:
  "entered (fst (run_core env index random_seed cov cms)) = []"
  by (auto simp: run_core_def call_test_def exception_handler_def Let_def
      split: sum.splits option.splits prod.splits)

text \<open>The trace of a worker whose test body raises.\<close>

lemma run_raises:
  assumes "setup_node port network_id = Inr chain_process"
    and "connect_loop port (refusals env) = (cevs, None)"
    and "build_args (test_name env) cov (test_params env) [] = Inr args"
    and "test_raises env = Some e"
  shows "fst (run env index port random_seed log_file tee network_id cov) =
     ([PicklingInstall, RandomSeed random_seed, Spawn (popen_args chain_process),
       SetExceptionHandler] @ cevs @
      (if tee then [] else [LoggingBasicConfig log_file, OpenWrite log_file]) @
      map Enter (log_scopes tee log_file) @
      PrintSeed random_seed index #
      (if reset_supported env then [ChainReset]
       else [ChainReset, LogWarning ''Development chain does not support resetting'']) @
      [CallTest args]) @
      map Exit (log_scopes tee log_file) @
      [ErrSend (Some (pickle_dumps e)), FinishedSet, ErrRecv (attach_reply env)] @
      (if attach_reply env then [StdinReopen, AttachDebugger e] else []) @
      [FinishedSet, GenExit, OpenAppend log_file, Kill, CloseAppend log_file]"
  using assms
  by (simp add: run_def run_core_def call_test_def exception_handler_def Let_def)

lemma example_run:
  "fst (run example_env 1 8546 [1, 2] ''log'' False ''anvil'' None) =
   [PicklingInstall, RandomSeed [1, 2],
    Spawn [''anvil'', ''--port'', ''8546'', ''--prune-history'', ''--gas-price'',
     ''0'', ''--base-fee'', ''0'', ''--steps-tracing''],
   SetExceptionHandler, ConnectRefused, GenExit, Sleep, Connected 8546,
   LoggingBasicConfig ''log'', OpenWrite ''log'', Enter (LogFile ''log''),
   Enter (redirect_stdout ''log''), Enter (redirect_stderr ''log''),
   PrintSeed [1, 2] 1, ChainReset, CallTest [NoneArg],
   Exit (LogFile ''log''), Exit (redirect_stdout ''log''),
   Exit (redirect_stderr ''log''),
   ErrSend (Some (Pickle (PyExn ''AssertionError'' ''invariant broken''))), FinishedSet,
   ErrRecv False, FinishedSet, GenExit, OpenAppend ''log'', Kill, CloseAppend ''log'']"
  by (simp add: run_def run_core_def call_test_def exception_handler_def Let_def
      example_env_def setup_node_def str_int_def str_nat.simps digit_char_def
      log_scopes_def pickle_dumps_def)


lemma connect_loop_no_Kill: "Kill \<notin> set (fst (connect_loop port rs))"
  using connect_loop_events [of port rs] by auto

text \<open>
  C1. A worker whose test body raises writes its error channel exactly once, with the
  pickled exception, so the orchestrator finds the event set and exactly one envelope
  on its end of the pipe; and the node is killed exactly once, in the block that ends
  the worker, after the worker has received the decision and the handler has set the
  event the second time.
\<close>

theorem raising_worker_one_envelope_kill_after_decision:
  assumes "setup_node port network_id = Inr chain_process"
    and "snd (connect_loop port (refusals env)) = None"
    and "build_args (test_name env) cov (test_params env) [] = Inr args"
    and "test_raises env = Some e"
  shows "(\<exists>pre.
      fst (run env index port random_seed log_file tee network_id cov) =
        pre @ [ErrSend (Some (pickle_dumps e)), FinishedSet, ErrRecv (attach_reply env)] @
        (if attach_reply env then [StdinReopen, AttachDebugger e] else []) @
        [FinishedSet, GenExit, OpenAppend log_file, Kill, CloseAppend log_file] \<and>
      Kill \<notin> set pre \<and> sent pre = []) \<and>
    sent (fst (run env index port random_seed log_file tee network_id cov)) =
      [Some (pickle_dumps e)] \<and>
    err_conn (observed delay snaps
      (run env index port random_seed log_file tee network_id cov)) = [Some (pickle_dumps e)] \<and>
    count_list (fst (run env index port random_seed log_file tee network_id cov)) Kill = 1 \<and>
    finished_after (observed delay snaps
      (run env index port random_seed log_file tee network_id cov)) = Some delay \<and>
    resolves (observed delay snaps (run env index port random_seed log_file tee network_id cov))"
proof -
  obtain cevs where c: "connect_loop port (refusals env) = (cevs, None)"
    using assms(2) by (cases "connect_loop port (refusals env)") auto
  have quiet: "sent cevs = []" "Kill \<notin> set cevs"
    using connect_loop_quiet(3) [of port "refusals env"]
      connect_loop_no_Kill [of port "refusals env"] c by auto
  note tr = run_raises [OF assms(1) c assms(3,4), of index random_seed log_file tee]
  let ?pre = "([PicklingInstall, RandomSeed random_seed, Spawn (popen_args chain_process),
       SetExceptionHandler] @ cevs @
      (if tee then [] else [LoggingBasicConfig log_file, OpenWrite log_file]) @
      map Enter (log_scopes tee log_file) @
      PrintSeed random_seed index #
      (if reset_supported env then [ChainReset]
       else [ChainReset, LogWarning ''Development chain does not support resetting'']) @
      [CallTest args]) @ map Exit (log_scopes tee log_file)"
  have "Kill \<notin> set ?pre" using quiet by auto
  moreover have "sent ?pre = []" using quiet by simp
  ultimately have split: "\<exists>pre.
      fst (run env index port random_seed log_file tee network_id cov) =
        pre @ [ErrSend (Some (pickle_dumps e)), FinishedSet, ErrRecv (attach_reply env)] @
        (if attach_reply env then [StdinReopen, AttachDebugger e] else []) @
        [FinishedSet, GenExit, OpenAppend log_file, Kill, CloseAppend log_file] \<and>
      Kill \<notin> set pre \<and> sent pre = []"
    unfolding tr by (intro exI [of _ ?pre]) simp
  have s: "sent (fst (run env index port random_seed log_file tee network_id cov)) =
      [Some (pickle_dumps e)]"
    unfolding tr using quiet by simp
  then have o: "err_conn (observed delay snaps
        (run env index port random_seed log_file tee network_id cov)) = [Some (pickle_dumps e)]"
    by (simp add: observed_def)
  have k: "count_list (fst (run env index port random_seed log_file tee network_id cov)) Kill = 1"
    unfolding tr using quiet by (simp add: count_list_0_iff image_iff)
  have f: "finished_after (observed delay snaps
      (run env index port random_seed log_file tee network_id cov)) = Some delay \<and>
    resolves (observed delay snaps (run env index port random_seed log_file tee network_id cov))"
    unfolding observed_def tr by simp
  from split s o k f show ?thesis by blast
qed

lemma example_hyps:
  "setup_node 8546 ''anvil'' = Inr (Popen [''anvil'', ''--port'', ''8546'', ''--prune-history'',
     ''--gas-price'', ''0'', ''--base-fee'', ''0'', ''--steps-tracing''])"
  "snd (connect_loop 8546 (refusals example_env)) = None"
  "build_args (test_name example_env) None (test_params example_env) [] = Inr [NoneArg]"
  "test_raises example_env = Some (PyExn ''AssertionError'' ''invariant broken'')"
  by (simp_all add: setup_node_def str_int_def str_nat.simps digit_char_def example_env_def)

theorem raising_worker_one_envelope_kill_after_decision_witness:
  "test_raises example_env = Some (PyExn ''AssertionError'' ''invariant broken'') \<and>
   sent (fst (run example_env 1 8546 [1, 2] ''log'' False ''anvil'' None)) =
     [Some (Pickle (PyExn ''AssertionError'' ''invariant broken''))] \<and>
   count_list (fst (run example_env 1 8546 [1, 2] ''log'' False ''anvil'' None)) Kill = 1"
  using raising_worker_one_envelope_kill_after_decision [OF example_hyps,
      of 1 "[1, 2]" "''log''" False 0 "[]"]
  by (simp add: example_hyps(4) pickle_dumps_def)

text \<open>
  C6, as stated, fails: with the plain redirect the three scopes are left in the order
  in which they were entered, which is not the reverse of it.
\<close>

theorem teardown_reversed_counterexample:
  "exited (fst (run example_env 1 8546 [1, 2] ''log'' False ''anvil'' None)) \<noteq>
   rev (entered (fst (run example_env 1 8546 [1, 2] ''log'' False ''anvil'' None)))"
  by (simp add: example_run)

text \<open>
  C6, amended. When the test body raises, the worker leaves its log scopes in the order
  of their acquisition (the list order of \<^verbatim>\<open>ctx_managers\<close>), all of them before the
  pickled exception is sent, and leaves no scope after that.
\<close>

theorem teardown_in_acquisition_order_before_send:
  assumes "setup_node port network_id = Inr chain_process"
    and "snd (connect_loop port (refusals env)) = None"
    and "build_args (test_name env) cov (test_params env) [] = Inr args"
    and "test_raises env = Some e"
  shows "\<exists>pre post.
      fst (run env index port random_seed log_file tee network_id cov) =
        pre @ map Exit (log_scopes tee log_file) @ ErrSend (Some (pickle_dumps e)) # post \<and>
      entered pre = log_scopes tee log_file \<and> exited pre = [] \<and> sent pre = [] \<and>
      exited post = []"
proof -
  obtain cevs where c: "connect_loop port (refusals env) = (cevs, None)"
    using assms(2) by (cases "connect_loop port (refusals env)") auto
  have quiet: "entered cevs = []" "exited cevs = []" "sent cevs = []"
    using connect_loop_quiet [of port "refusals env"] c by auto
  note tr = run_raises [OF assms(1) c assms(3,4), of index random_seed log_file tee]
  let ?pre = "[PicklingInstall, RandomSeed random_seed, Spawn (popen_args chain_process),
       SetExceptionHandler] @ cevs @
      (if tee then [] else [LoggingBasicConfig log_file, OpenWrite log_file]) @
      map Enter (log_scopes tee log_file) @
      PrintSeed random_seed index #
      (if reset_supported env then [ChainReset]
       else [ChainReset, LogWarning ''Development chain does not support resetting'']) @
      [CallTest args]"
  let ?post = "[FinishedSet, ErrRecv (attach_reply env)] @
      (if attach_reply env then [StdinReopen, AttachDebugger e] else []) @
      [FinishedSet, GenExit, OpenAppend log_file, Kill, CloseAppend log_file]"
  have "entered ?pre = log_scopes tee log_file" "exited ?pre = []" "sent ?pre = []"
    using quiet by simp_all
  moreover have "exited ?post = []" by simp
  ultimately show ?thesis
    unfolding tr by (intro exI [of _ ?pre] exI [of _ ?post]) simp
qed

theorem teardown_in_acquisition_order_before_send_witness:
  "test_raises example_env = Some (PyExn ''AssertionError'' ''invariant broken'') \<and>
   (\<exists>pre post.
      fst (run example_env 1 8546 [1, 2] ''log'' False ''anvil'' None) =
        pre @ [Exit (LogFile ''log''), Exit (redirect_stdout ''log''),
               Exit (redirect_stderr ''log'')] @
        ErrSend (Some (Pickle (PyExn ''AssertionError'' ''invariant broken''))) # post \<and>
      entered pre = [LogFile ''log'', redirect_stdout ''log'', redirect_stderr ''log''] \<and>
      exited pre = [] \<and> sent pre = [] \<and> exited post = [])"
  using teardown_in_acquisition_order_before_send [OF example_hyps,
      of 1 "[1, 2]" "''log''" False]
  by (simp add: example_hyps(4) pickle_dumps_def log_scopes_def)


text \<open>
  C8, as stated, fails: the exception raised for an unknown network is a
  \<^verbatim>\<open>ValueError\<close>, not a \<^verbatim>\<open>ConfigurationError\<close>.
\<close>

theorem setup_node_unknown_is_not_ConfigurationError:
  "setup_node 8545 ''geth'' =
     Inl (PyExn ''ValueError'' (''Unknown network ID '' @ [CHR 0x27] @ ''geth'' @ [CHR 0x27])) \<and>
   exn_class (projl (setup_node 8545 ''geth'')) \<noteq> ''ConfigurationError''"
  by (simp add: setup_node_def)

lemma run_unknown_network:
  assumes "setup_node port network_id = Inl err"
  shows "run env index port random_seed log_file tee network_id cov =
    ([PicklingInstall, RandomSeed random_seed], Some err)"
  using assms by (simp add: run_def)

text \<open>
  C8, amended. For every network kind other than anvil, ganache and hardhat,
  \<^verbatim>\<open>_setup\<close> raises a \<^verbatim>\<open>ValueError\<close> whose message names the kind, and the
  worker ends with that exception before it has spawned anything; for each of the three
  kinds the subprocess is started with the fixed arguments of the kind, with
  \<^verbatim>\<open>--port\<close> followed by the port in decimal.
\<close>

theorem setup_node_unknown_ValueError_known_spawned:
  "(network_id \<notin> {''anvil'', ''ganache'', ''hardhat''} \<longrightarrow>
      setup_node port network_id =
        Inl (PyExn ''ValueError'' (''Unknown network ID '' @ [CHR 0x27] @ network_id @ [CHR 0x27])) \<and>
      run env index port random_seed log_file tee network_id cov =
        ([PicklingInstall, RandomSeed random_seed],
         Some (PyExn ''ValueError''
           (''Unknown network ID '' @ [CHR 0x27] @ network_id @ [CHR 0x27])))) \<and>
   setup_node port ''anvil'' =
     Inr (Popen [''anvil'', ''--port'', str_int port, ''--prune-history'',
                 ''--gas-price'', ''0'', ''--base-fee'', ''0'', ''--steps-tracing'']) \<and>
   setup_node port ''ganache'' =
     Inr (Popen [''ganache-cli'', ''--port'', str_int port, ''-g'', ''0'', ''-k'', ''istanbul'']) \<and>
   setup_node port ''hardhat'' =
     Inr (Popen [''npx'', ''hardhat'', ''node'', ''--port'', str_int port])"
proof -
  have "setup_node port network_id =
      Inl (PyExn ''ValueError'' (''Unknown network ID '' @ [CHR 0x27] @ network_id @ [CHR 0x27]))"
    if "network_id \<notin> {''anvil'', ''ganache'', ''hardhat''}"
    using that by (simp add: setup_node_def)
  then show ?thesis
    by (auto simp: run_unknown_network) (simp_all add: setup_node_def)
qed

theorem setup_node_unknown_ValueError_known_spawned_witness:
  "''geth'' \<notin> {''anvil'', ''ganache'', ''hardhat''} \<and>
   setup_node 8545 ''geth'' =
     Inl (PyExn ''ValueError'' (''Unknown network ID '' @ [CHR 0x27] @ ''geth'' @ [CHR 0x27])) \<and>
   fst (run example_env 0 8545 [] ''log'' True ''geth'' None) = [PicklingInstall, RandomSeed []] \<and>
   setup_node 8545 ''hardhat'' = Inr (Popen [''npx'', ''hardhat'', ''node'', ''--port'', ''8545''])"
proof -
  have h: "''geth'' \<notin> {''anvil'', ''ganache'', ''hardhat''}" by simp
  have p: "str_int 8545 = ''8545''"
    by (simp add: str_int_def str_nat.simps digit_char_def)
  show ?thesis
    using h setup_node_unknown_ValueError_known_spawned
      [of "''geth''" 8545 example_env 0 "[]" "''log''" True None]
    by (simp add: p)
qed

text \<open>
  C10. A worker started by \<^verbatim>\<open>fuzz\<close> gets the tee flag exactly when the campaign is
  passive and its index is 0; with the flag it enters the two tees, without it the log
  file and the two redirects into it.
\<close>

theorem tee_only_for_worker_0_of_passive_campaign:
  assumes "w \<in> set (spawn sanitize_filename logs_dir module fname passive network_id
      cov_proc_num process_count random_seeds)"
    and "setup_node (w_port w) (w_network w) = Inr chain_process"
    and "snd (connect_loop (w_port w) (refusals env)) = None"
  shows "w_tee w = (passive \<and> w_index w = 0) \<and>
    entered (fst (run env (w_index w) (w_port w) (w_seed w) (w_log w) (w_tee w)
      (w_network w) (w_cov w))) =
      (if passive \<and> w_index w = 0 then [StdoutTee (w_log w), StderrTee (w_log w)]
       else [LogFile (w_log w), redirect_stdout (w_log w), redirect_stderr (w_log w)])"
proof -
  from assms(1) have tee: "w_tee w = (passive \<and> w_index w = 0)"
    by (auto simp: spawn_def Let_def)
  obtain cevs where c: "connect_loop (w_port w) (refusals env) = (cevs, None)"
    using assms(3) by (cases "connect_loop (w_port w) (refusals env)") auto
  have quiet: "entered cevs = []"
    using connect_loop_quiet(1) [of "w_port w" "refusals env"] c by simp
  obtain core raised left where
    r: "run_core env (w_index w) (w_seed w) (w_cov w) (log_scopes (w_tee w) (w_log w)) =
      (core, raised, left)"
    by (cases "run_core env (w_index w) (w_seed w) (w_cov w) (log_scopes (w_tee w) (w_log w))")
  have core: "entered core = []"
    using run_core_enters_nothing
      [of env "w_index w" "w_seed w" "w_cov w" "log_scopes (w_tee w) (w_log w)"] r by simp
  have "entered (fst (run env (w_index w) (w_port w) (w_seed w) (w_log w) (w_tee w)
      (w_network w) (w_cov w))) = log_scopes (w_tee w) (w_log w)"
    using assms(2) c r quiet core by (simp add: run_def Let_def)
  with tee show ?thesis by (simp add: log_scopes_def)
qed

section \<open>Seeds and workers\<close>

lemma map_shift_upt: "map (\<lambda>m. f (m + n)) [a..<b] = map f [a + n..<b + n]"
  by (induction b) auto

lemma append_random_seeds:
  "fst (append_random k random_seeds src) =
     random_seeds @ map (\<lambda>j. map src [8 * j..<8 * j + 8]) [0..<k]"
proof (induction k arbitrary: random_seeds src)
  case 0
  then show ?case by simp
next
  case (Suc k)
  have shift: "map (\<lambda>j. map (\<lambda>m. src (m + 8)) [8 * j..<8 * j + 8]) [0..<k] =
      map (\<lambda>j. map src [8 * j..<8 * j + 8]) (map Suc [0..<k])"
    by (simp add: map_shift_upt add.commute)
  have "fst (append_random (Suc k) random_seeds src) =
      (random_seeds @ [map src [0..<8]]) @
      map (\<lambda>j. map (\<lambda>m. src (m + 8)) [8 * j..<8 * j + 8]) [0..<k]"
    by (simp add: os_urandom_def Suc.IH)
  also have "\<dots> = random_seeds @ map (\<lambda>j. map src [8 * j..<8 * j + 8]) (0 # map Suc [0..<k])"
    unfolding shift by simp
  also have "0 # map Suc [0..<k] = [0..<Suc k]"
    by (simp add: map_Suc_upt upt_conv_Cons del: upt_Suc)
  finally show ?case .
qed

lemma spawn_seeds:
  "map w_seed (spawn sanitize_filename logs_dir module fname passive network_id cov_proc_num
      process_count random_seeds) = take (nat process_count) random_seeds"
proof -
  have "map w_seed (map (\<lambda>(i, seed). f i seed\<lparr>w_seed := seed\<rparr>) zs) = map snd zs" for f zs
    by (induction zs) auto
  have "map w_seed (spawn sanitize_filename logs_dir module fname passive network_id cov_proc_num
      process_count random_seeds) = map snd (zip (range_py process_count) random_seeds)"
    by (simp add: spawn_def Let_def o_def split_def)
  then show ?thesis
    by (simp add: range_py_def map_snd_zip_take min_def)
qed

lemma spawn_indices:
  "map w_index (spawn sanitize_filename logs_dir module fname passive network_id cov_proc_num
      process_count random_seeds) = take (length random_seeds) (range_py process_count)"
proof -
  have "map w_index (spawn sanitize_filename logs_dir module fname passive network_id cov_proc_num
      process_count random_seeds) = map fst (zip (range_py process_count) random_seeds)"
    by (simp add: spawn_def Let_def o_def split_def)
  then show ?thesis
    by (simp add: map_fst_zip_take min_def)
qed

lemma spawn_length:
  "length (spawn sanitize_filename logs_dir module fname passive network_id cov_proc_num
      process_count random_seeds) = min (nat process_count) (length random_seeds)"
  by (simp add: spawn_def Let_def range_py_def)

lemma make_seeds_pad:
  assumes "int (length seeds) \<le> process_count"
  shows "fst (make_seeds process_count seeds src) =
    seeds @ map (\<lambda>j. map src [8 * j..<8 * j + 8]) [0..<nat process_count - length seeds]"
proof (cases "int (length seeds) < process_count")
  case True
  then have "nat (process_count - int (length seeds)) = nat process_count - length seeds"
    by linarith
  with True show ?thesis by (simp add: make_seeds_def append_random_seeds)
next
  case False
  with assms have "nat process_count - length seeds = 0" by linarith
  with False show ?thesis by (simp add: make_seeds_def)
qed

text \<open>
  C3, as stated, fails: with one supplied seed of four bytes and two processes, the
  second worker gets a generated seed of eight bytes, not of four.
\<close>

theorem generated_seed_length_counterexample:
  "map (\<lambda>w. length (w_seed w))
     (spawn (\<lambda>s. s) ''logs'' ''tests'' ''test_fuzz'' False ''anvil'' 0 2
        (fst (make_seeds 2 [[1, 2, 3, 4]] (\<lambda>k. 0)))) = [4, 8]"
proof -
  have "fst (make_seeds 2 [[1, 2, 3, 4]] (\<lambda>k. 0)) = [[1, 2, 3, 4], map (\<lambda>k. 0) [0..<8]]"
    by (simp add: make_seeds_pad)
  then have "map w_seed (spawn (\<lambda>s. s) ''logs'' ''tests'' ''test_fuzz'' False ''anvil'' 0 2
        (fst (make_seeds 2 [[1, 2, 3, 4]] (\<lambda>k. 0)))) = [[1, 2, 3, 4], map (\<lambda>k. 0) [0..<8]]"
    by (simp add: spawn_seeds)
  then have "map length (map w_seed (spawn (\<lambda>s. s) ''logs'' ''tests'' ''test_fuzz'' False ''anvil'' 0 2
        (fst (make_seeds 2 [[1, 2, 3, 4]] (\<lambda>k. 0))))) = [4, 8]"
    by simp
  then show ?thesis by (simp add: o_def)
qed

text \<open>
  C3, amended. For every process count that is at least the number of supplied seeds,
  exactly that many workers are started, with the indices \<open>0, 1, \<dots>\<close> in order; the
  first workers get the supplied seeds in order, and each remaining worker gets the next
  eight bytes of \<^verbatim>\<open>os.urandom\<close>: a fresh seed of exactly eight bytes, whatever the
  length of the supplied seeds.
\<close>

theorem workers_get_supplied_then_fresh_8_byte_seeds:
  assumes "int (length seeds) \<le> process_count"
  shows "int (length (spawn sanitize_filename logs_dir module fname passive network_id
        cov_proc_num process_count (fst (make_seeds process_count seeds src)))) = process_count \<and>
    map w_index (spawn sanitize_filename logs_dir module fname passive network_id
        cov_proc_num process_count (fst (make_seeds process_count seeds src))) =
      range_py process_count \<and>
    map w_seed (spawn sanitize_filename logs_dir module fname passive network_id
        cov_proc_num process_count (fst (make_seeds process_count seeds src))) =
      seeds @ map (\<lambda>j. map src [8 * j..<8 * j + 8]) [0..<nat process_count - length seeds] \<and>
    (\<forall>s \<in> set (drop (length seeds) (map w_seed (spawn sanitize_filename logs_dir module fname
        passive network_id cov_proc_num process_count
        (fst (make_seeds process_count seeds src))))). length s = 8)"
proof -
  let ?rs = "fst (make_seeds process_count seeds src)"
  have rs: "?rs = seeds @ map (\<lambda>j. map src [8 * j..<8 * j + 8])
      [0..<nat process_count - length seeds]"
    using assms by (rule make_seeds_pad)
  have len: "length ?rs = nat process_count"
    unfolding rs using assms by simp
  have "length (range_py process_count) = nat process_count"
    by (simp add: range_py_def)
  with len show ?thesis
    using assms by (simp add: spawn_length spawn_indices spawn_seeds) (simp add: rs)
qed

text \<open>
  C9. When more seeds are supplied than the process count, no seed is generated, the
  number of workers is the process count (none for a negative count), with the indices
  in order, and the workers get the first seeds of the list in order; the other seeds
  are not used.
\<close>

theorem surplus_seeds_ignored:
  assumes "process_count < int (length seeds)"
  shows "make_seeds process_count seeds src = (seeds, src) \<and>
    length (spawn sanitize_filename logs_dir module fname passive network_id
        cov_proc_num process_count (fst (make_seeds process_count seeds src))) =
      nat process_count \<and>
    map w_index (spawn sanitize_filename logs_dir module fname passive network_id
        cov_proc_num process_count (fst (make_seeds process_count seeds src))) =
      range_py process_count \<and>
    map w_seed (spawn sanitize_filename logs_dir module fname passive network_id
        cov_proc_num process_count (fst (make_seeds process_count seeds src))) =
      take (nat process_count) seeds"
proof -
  have m: "make_seeds process_count seeds src = (seeds, src)"
    using assms by (simp add: make_seeds_def)
  have "length (range_py process_count) = nat process_count"
    by (simp add: range_py_def)
  with assms show ?thesis
    unfolding m by (simp add: spawn_length spawn_indices spawn_seeds)
qed



theorem workers_get_supplied_then_fresh_8_byte_seeds_witness:
  "int (length [[1, 1, 1, 1, 1, 1, 1, 1], [2, 2, 2, 2, 2, 2, 2, 2 :: 8 word]]) \<le> 3 \<and>
   map w_seed (spawn (\<lambda>s. s) ''logs'' ''tests'' ''test_fuzz'' False ''anvil'' 0 3
     (fst (make_seeds 3 [[1, 1, 1, 1, 1, 1, 1, 1], [2, 2, 2, 2, 2, 2, 2, 2]] (\<lambda>k. of_nat k)))) =
   [[1, 1, 1, 1, 1, 1, 1, 1], [2, 2, 2, 2, 2, 2, 2, 2], [0, 1, 2, 3, 4, 5, 6, 7]]"
proof -
  have h: "int (length [[1, 1, 1, 1, 1, 1, 1, 1], [2, 2, 2, 2, 2, 2, 2, 2 :: 8 word]]) \<le> 3"
    by simp
  have u: "[0..<8] = [0, 1, 2, 3, 4, 5, 6, 7 :: nat]"
    by (simp add: upt_rec)
  show ?thesis
    using h workers_get_supplied_then_fresh_8_byte_seeds [OF h,
        of "\<lambda>s. s" "''logs''" "''tests''" "''test_fuzz''" False "''anvil''" 0 "\<lambda>k. of_nat k"]
    by (simp add: u)
qed

theorem surplus_seeds_ignored_witness:
  "1 < int (length [[1], [2], [3 :: 8 word]]) \<and>
   map w_seed (spawn (\<lambda>s. s) ''logs'' ''tests'' ''test_fuzz'' False ''anvil'' 0 1
     (fst (make_seeds 1 [[1], [2], [3]] (\<lambda>k. 0)))) = [[1]]"
proof -
  have h: "1 < int (length [[1], [2], [3 :: 8 word]])" by simp
  show ?thesis
    using h surplus_seeds_ignored [OF h,
        of "\<lambda>k. 0" "\<lambda>s. s" "''logs''" "''tests''" "''test_fuzz''" False "''anvil''" 0]
    by (simp add: make_seeds_def)
qed

lemma example_spawn:
  "spawn (\<lambda>s. s) ''logs'' ''tests'' ''test_fuzz'' True ''anvil'' 0 2 [[1], [2]] =
    [\<lparr>w_index = 0, w_port = 8545, w_seed = [1], w_log = ''logs/tests.test_fuzz_0.ansi'',
      w_tee = True, w_network = ''anvil'', w_cov = None\<rparr>,
     \<lparr>w_index = 1, w_port = 8546, w_seed = [2], w_log = ''logs/tests.test_fuzz_1.ansi'',
      w_tee = False, w_network = ''anvil'', w_cov = None\<rparr>]"
  by (simp add: spawn_def range_py_def log_path_def str_int_def str_nat.simps digit_char_def
      upt_rec)


theorem tee_only_for_worker_0_of_passive_campaign_witness:
  "\<lparr>w_index = 1, w_port = 8546, w_seed = [2], w_log = ''logs/tests.test_fuzz_1.ansi'',
      w_tee = False, w_network = ''anvil'', w_cov = None\<rparr>
     \<in> set (spawn (\<lambda>s. s) ''logs'' ''tests'' ''test_fuzz'' True ''anvil'' 0 2 [[1], [2]]) \<and>
   entered (fst (run example_env 1 8546 [2] ''logs/tests.test_fuzz_1.ansi'' False ''anvil'' None)) =
     [LogFile ''logs/tests.test_fuzz_1.ansi'', redirect_stdout ''logs/tests.test_fuzz_1.ansi'',
      redirect_stderr ''logs/tests.test_fuzz_1.ansi'']"
proof -
  let ?w = "\<lparr>w_index = 1, w_port = 8546, w_seed = [2], w_log = ''logs/tests.test_fuzz_1.ansi'',
      w_tee = False, w_network = ''anvil'', w_cov = None\<rparr>"
  have m: "?w \<in> set (spawn (\<lambda>s. s) ''logs'' ''tests'' ''test_fuzz'' True ''anvil'' 0 2 [[1], [2]])"
    by (simp add: example_spawn)
  have s: "setup_node (w_port ?w) (w_network ?w) =
      Inr (Popen [''anvil'', ''--port'', ''8546'', ''--prune-history'',
        ''--gas-price'', ''0'', ''--base-fee'', ''0'', ''--steps-tracing''])"
    using example_hyps(1) by simp
  have c: "snd (connect_loop (w_port ?w) (refusals example_env)) = None"
    using example_hyps(2) by simp
  show ?thesis
    using m tee_only_for_worker_0_of_passive_campaign [OF m s c] by simp
qed

section \<open>The attach decision\<close>

lemma ask_attach_answer:
  assumes "\<forall>r \<in> set junk. r \<noteq> ''y'' \<and> r \<noteq> ''n''" and "a = ''y'' \<or> a = ''n''"
  shows "ask_attach (junk @ a # rest) =
    (Inr (a = ''y''), rest, replicate (Suc (length junk)) Input)"
  using assms by (induction junk) auto

lemma on_finished_exception:
  assumes "err_conn h = Some p # msgs" and "resolves h"
    and "decide_attach passive i (pickle_loads p) (stdin st) = (Inr attach, inp, outs)"
  shows "on_finished passive remaining i h st =
    Some (Inr (h\<lparr>err_conn := msgs\<rparr>,
      st\<lparr>stdin := inp,
         out := out st @ outs @ [EventClear i, AttachSend i attach] @
           (if \<not> passive then [ProgressStart] else []) @
           ProgressThrRem remaining # (if i = 0 then [ProgressStart] else [])\<rparr>))"
  using assms by (simp add: on_finished_def Let_def)

text \<open>
  C7. The orchestrator has received the pickled exception of worker \<open>i\<close>. If the
  campaign is not passive or \<open>i\<close> is 0, it shows the traceback and prompts once for
  every line that is neither \<open>y\<close> nor \<open>n\<close> and once more for the first line that is;
  the decision sent is true exactly when that line is \<open>y\<close>. In a passive campaign and
  for \<open>i\<close> other than 0 it prompts for nothing, reads nothing, and sends false.
\<close>

theorem attach_decision_prompted_or_defaulted:
  assumes "err_conn h = Some p # msgs" and "resolves h"
  shows "((\<not> passive \<or> i = 0) \<and> stdin st = junk @ a # rest \<and>
       (\<forall>r \<in> set junk. r \<noteq> ''y'' \<and> r \<noteq> ''n'') \<and> (a = ''y'' \<or> a = ''n'') \<longrightarrow>
      on_finished passive remaining i h st =
        Some (Inr (h\<lparr>err_conn := msgs\<rparr>,
          st\<lparr>stdin := rest,
             out := out st @ (if \<not> passive then [ProgressStop] else []) @
               [ConsolePrintTraceback (pickle_loads p), ConsolePrintFailed i] @
               replicate (Suc (length junk)) Input @
               [EventClear i, AttachSend i (a = ''y'')] @
               (if \<not> passive then [ProgressStart] else []) @
               ProgressThrRem remaining # (if i = 0 then [ProgressStart] else [])\<rparr>))) \<and>
    (passive \<and> i \<noteq> 0 \<longrightarrow>
      on_finished passive remaining i h st =
        Some (Inr (h\<lparr>err_conn := msgs\<rparr>,
          st\<lparr>out := out st @ [EventClear i, AttachSend i False, ProgressThrRem remaining]\<rparr>)))"
proof (intro conjI impI)
  assume a: "(\<not> passive \<or> i = 0) \<and> stdin st = junk @ a # rest \<and>
       (\<forall>r \<in> set junk. r \<noteq> ''y'' \<and> r \<noteq> ''n'') \<and> (a = ''y'' \<or> a = ''n'')"
  then have "ask_attach (stdin st) = (Inr (a = ''y''), rest, replicate (Suc (length junk)) Input)"
    using ask_attach_answer [of junk a rest] by simp
  with a have "decide_attach passive i (pickle_loads p) (stdin st) =
      (Inr (a = ''y''), rest,
       (if \<not> passive then [ProgressStop] else []) @
       [ConsolePrintTraceback (pickle_loads p), ConsolePrintFailed i] @
       replicate (Suc (length junk)) Input)"
    by (simp add: decide_attach_def)
  from on_finished_exception [OF assms this]
  show "on_finished passive remaining i h st =
        Some (Inr (h\<lparr>err_conn := msgs\<rparr>,
          st\<lparr>stdin := rest,
             out := out st @ (if \<not> passive then [ProgressStop] else []) @
               [ConsolePrintTraceback (pickle_loads p), ConsolePrintFailed i] @
               replicate (Suc (length junk)) Input @
               [EventClear i, AttachSend i (a = ''y'')] @
               (if \<not> passive then [ProgressStart] else []) @
               ProgressThrRem remaining # (if i = 0 then [ProgressStart] else [])\<rparr>))"
    by simp
next
  assume "passive \<and> i \<noteq> 0"
  then have "decide_attach passive i (pickle_loads p) (stdin st) = (Inr False, stdin st, [])"
    by (simp add: decide_attach_def)
  from on_finished_exception [OF assms this] \<open>passive \<and> i \<noteq> 0\<close>
  show "on_finished passive remaining i h st =
        Some (Inr (h\<lparr>err_conn := msgs\<rparr>,
          st\<lparr>out := out st @ [EventClear i, AttachSend i False, ProgressThrRem remaining]\<rparr>))"
    by simp
qed


theorem attach_decision_prompted_or_defaulted_witness:
  "on_finished False 3 1 example_handle example_orch =
     Some (Inr (example_handle\<lparr>err_conn := []\<rparr>,
       example_orch\<lparr>stdin := [''later''],
         out := [ProgressStop, ConsolePrintTraceback (PyExn ''AssertionError'' ''invariant broken''),
           ConsolePrintFailed 1, Input, Input, EventClear 1, AttachSend 1 False, ProgressStart,
           ProgressThrRem 3]\<rparr>)) \<and>
   on_finished True 3 1 example_handle example_orch =
     Some (Inr (example_handle\<lparr>err_conn := []\<rparr>,
       example_orch\<lparr>out := [EventClear 1, AttachSend 1 False, ProgressThrRem 3]\<rparr>))"
proof -
  have h: "err_conn example_handle = Some (Pickle (PyExn ''AssertionError'' ''invariant broken'')) # []"
    "resolves example_handle"
    by (simp_all add: example_handle_def)
  have i: "stdin example_orch = [''maybe''] @ ''n'' # [''later'']" "out example_orch = []"
    by (simp_all add: example_orch_def)
  show ?thesis
    using attach_decision_prompted_or_defaulted [OF h, of False 1 example_orch "[''maybe'']" "''n''"
        "[''later'']" 3]
      attach_decision_prompted_or_defaulted [OF h, of True 1 example_orch "[''maybe'']" "''n''"
        "[''later'']" 3] i
    by simp
qed

section \<open>Draining the coverage queue\<close>

lemma drain_last:
  "queue \<noteq> [] \<Longrightarrow>
   drain merge passive verbose_coverage i queue st =
   drain merge passive verbose_coverage i [last queue] st"
  by (induction queue) auto

lemma drain_one:
  "drain merge passive verbose_coverage i [s] st =
     st\<lparr>exported_coverages := AList.update i (fst s) (exported_coverages st),
        exported_coverages_per_trans := AList.update i (snd s) (exported_coverages_per_trans st),
        out := out st @
          (if merge (map snd (AList.update i (fst s) (exported_coverages st))) \<noteq> []
           then [WriteFile ''woke-coverage.cov''
                   (merge (map snd (AList.update i (fst s) (exported_coverages st)))),
                 WriteFile ''woke-coverage-per-trans.cov''
                   (merge (map snd (AList.update i (snd s) (exported_coverages_per_trans st))))]
           else []) @
          [ProgressCoverageInfo (coverage_info passive verbose_coverage
             (merge (map snd (AList.update i (fst s) (exported_coverages st)))))]\<rparr>"
  by (simp add: Let_def)

lemma update_twice: "AList.update k v (AList.update k v al) = AList.update k v al"
  by (rule update_triv) (simp add: update_conv')

text \<open>
  C2. After a drain of the queue of worker \<open>i\<close> that found at least one snapshot, the
  two dictionaries hold for \<open>i\<close> exactly the last snapshot found and for every other
  worker what they held before, one entry per worker; and draining the same last
  snapshot once more leaves both dictionaries as they are and writes again the merge of
  the same dictionaries, whatever the merge function is.
\<close>

theorem latest_snapshot_only_resubmission_idempotent:
  assumes "queue \<noteq> []"
  shows "exported_coverages (drain merge passive verbose_coverage i queue st) =
      AList.update i (fst (last queue)) (exported_coverages st) \<and>
    exported_coverages_per_trans (drain merge passive verbose_coverage i queue st) =
      AList.update i (snd (last queue)) (exported_coverages_per_trans st) \<and>
    map_of (exported_coverages (drain merge passive verbose_coverage i queue st)) =
      (map_of (exported_coverages st))(i \<mapsto> fst (last queue)) \<and>
    map_of (exported_coverages_per_trans (drain merge passive verbose_coverage i queue st)) =
      (map_of (exported_coverages_per_trans st))(i \<mapsto> snd (last queue)) \<and>
    (distinct (map fst (exported_coverages st)) \<longrightarrow>
      distinct (map fst (exported_coverages (drain merge passive verbose_coverage i queue st)))) \<and>
    (distinct (map fst (exported_coverages_per_trans st)) \<longrightarrow>
      distinct (map fst
        (exported_coverages_per_trans (drain merge passive verbose_coverage i queue st)))) \<and>
    exported_coverages (drain merge passive verbose_coverage i [last queue]
        (drain merge passive verbose_coverage i queue st)) =
      exported_coverages (drain merge passive verbose_coverage i queue st) \<and>
    exported_coverages_per_trans (drain merge passive verbose_coverage i [last queue]
        (drain merge passive verbose_coverage i queue st)) =
      exported_coverages_per_trans (drain merge passive verbose_coverage i queue st) \<and>
    out (drain merge passive verbose_coverage i [last queue]
        (drain merge passive verbose_coverage i queue st)) =
      out (drain merge passive verbose_coverage i queue st) @
      (if merge (map snd (exported_coverages (drain merge passive verbose_coverage i queue st)))
          \<noteq> []
       then [WriteFile ''woke-coverage.cov''
               (merge (map snd
                 (exported_coverages (drain merge passive verbose_coverage i queue st)))),
             WriteFile ''woke-coverage-per-trans.cov''
               (merge (map snd
                 (exported_coverages_per_trans (drain merge passive verbose_coverage i queue st))))]
       else []) @
      [ProgressCoverageInfo (coverage_info passive verbose_coverage
         (merge (map snd (exported_coverages (drain merge passive verbose_coverage i queue st)))))]"
proof -
  have d: "drain merge passive verbose_coverage i queue st =
      drain merge passive verbose_coverage i [last queue] st"
    using assms by (rule drain_last)
  show ?thesis
    unfolding d drain_one
    by (simp add: update_twice update_conv' distinct_update)
qed


theorem latest_snapshot_only_resubmission_idempotent_witness:
  "[([(''a.sol'', [])], []), ([(''b.sol'', [])], [(''c.sol'', [])])] \<noteq> ([] :: snapshot list) \<and>
   exported_coverages (drain (\<lambda>exports. []) False False 1
     [([(''a.sol'', [])], []), ([(''b.sol'', [])], [(''c.sol'', [])])] empty_orch) =
     [(1, [(''b.sol'', [])])] \<and>
   exported_coverages (drain (\<lambda>exports. []) False False 1 [([(''b.sol'', [])], [(''c.sol'', [])])]
     (drain (\<lambda>exports. []) False False 1
       [([(''a.sol'', [])], []), ([(''b.sol'', [])], [(''c.sol'', [])])] empty_orch)) =
     [(1, [(''b.sol'', [])])]"
proof -
  have h: "[([(''a.sol'', [])], []), ([(''b.sol'', [])], [(''c.sol'', [])])] \<noteq> ([] :: snapshot list)"
    by simp
  have e: "exported_coverages empty_orch = []"
    by (simp add: empty_orch_def)
  show ?thesis
    using h latest_snapshot_only_resubmission_idempotent [OF h,
        of "\<lambda>exports. []" False False 1 empty_orch]
    by (simp add: e)
qed

section \<open>Per-function coverage\<close>

lemma cover_path_assignments:
  "map_of (cover_path fn_names fn_path path_rec funcs_cov) =
   map_of (rev (assignments fn_names (map (Pair fn_path) path_rec)) @ funcs_cov)"
proof (induction path_rec arbitrary: funcs_cov)
  case Nil
  then show ?case by (simp add: assignments_def)
next
  case (Cons r path_rec)
  show ?case
    by (simp add: Cons.IH assignments_def key_of_def update_conv' map_add_upd_left
        map_add_def fun_eq_iff split: option.splits)
qed

lemma assignments_append:
  "assignments fn_names (xs @ ys) = assignments fn_names xs @ assignments fn_names ys"
  by (simp add: assignments_def)

lemma cover_items_assignments:
  "map_of (cover_items fn_names ide_cov funcs_cov) =
   map_of (rev (assignments fn_names (entries ide_cov)) @ funcs_cov)"
proof (induction ide_cov arbitrary: funcs_cov)
  case Nil
  then show ?case by (simp add: assignments_def entries_def)
next
  case (Cons item ide_cov)
  obtain fn_path path_rec where item: "item = (fn_path, path_rec)" by (cases item)
  have "entries (item # ide_cov) = map (Pair fn_path) path_rec @ entries ide_cov"
    by (simp add: entries_def item)
  then show ?case
    by (simp add: item Cons.IH assignments_append cover_path_assignments map_add_assoc)
qed

lemma compute_assignments:
  "map_of (compute_coverage_per_function ide_cov) =
   map_of (rev (assignments (fn_names_of ide_cov) (entries ide_cov)))"
  by (simp add: compute_coverage_per_function_def cover_items_assignments)

lemma fn_names_entries:
  "fn_names_of ide_cov =
   map (\<lambda>e. name (snd e)) (filter (\<lambda>e. coverageHits (snd e) > 0) (entries ide_cov))"
  by (induction ide_cov) (auto simp: fn_names_of_def entries_def filter_map o_def)

lemma in_entries:
  "(fn_path, r) \<in> set (entries ide_cov) \<longleftrightarrow>
   (\<exists>path_rec. (fn_path, path_rec) \<in> set ide_cov \<and> r \<in> set path_rec)"
  by (auto simp: entries_def)

lemma count_two:
  assumes "x \<in> set xs" and "y \<in> set xs" and "x \<noteq> y" and "g x = n" and "g y = n"
  shows "2 \<le> count_list (map g xs) n"
  using assms
proof (induction xs)
  case Nil
  then show ?case by simp
next
  case (Cons a xs)
  have one: "z \<in> set xs \<Longrightarrow> g z = n \<Longrightarrow> 1 \<le> count_list (map g xs) n" for z
    by (metis One_nat_def Suc_leI count_list_0_iff image_eqI list.set_map not_gr_zero)
  show ?case
  proof (cases "a = x")
    case True
    with Cons.prems have "y \<in> set xs" by auto
    from one [OF this] Cons.prems True show ?thesis by simp
  next
    case False
    show ?thesis
    proof (cases "a = y")
      case True
      with Cons.prems False have "x \<in> set xs" by auto
      from one [OF this] Cons.prems True show ?thesis by simp
    next
      case n: False
      with False Cons.prems have "x \<in> set xs" "y \<in> set xs" by auto
      from Cons.IH [OF this Cons.prems(3,4,5)] show ?thesis by simp
    qed
  qed
qed

lemma map_of_all_same:
  assumes "(k, v) \<in> set xs" and "\<forall>v'. (k, v') \<in> set xs \<longrightarrow> v' = v"
  shows "map_of xs k = Some v"
proof -
  from assms(1) obtain x where x: "map_of xs k = Some x"
    by (meson weak_map_of_SomeI)
  then have "(k, x) \<in> set xs" by (rule map_of_SomeD)
  with assms(2) x show ?thesis by simp
qed


lemma cover_path_strip:
  "cover_path fn_names fn_path (filter (\<lambda>r. coverageHits r \<noteq> 0) path_rec) funcs_cov =
   cover_path fn_names fn_path path_rec funcs_cov"
  by (induction path_rec arbitrary: funcs_cov) auto

lemma cover_items_strip:
  "cover_items fn_names (strip_zero ide_cov) funcs_cov = cover_items fn_names ide_cov funcs_cov"
  by (induction ide_cov arbitrary: funcs_cov) (auto simp: strip_zero_def cover_path_strip)

lemma fn_names_strip: "fn_names_of (strip_zero ide_cov) = fn_names_of ide_cov"
proof -
  have "filter (\<lambda>r. 0 < coverageHits r) (filter (\<lambda>r. coverageHits r \<noteq> 0) rs) =
      filter (\<lambda>r. 0 < coverageHits r) rs" for rs :: "fn_rec list"
    by (induction rs) auto
  then show ?thesis
    by (induction ide_cov) (auto simp: fn_names_of_def strip_zero_def)
qed

lemma compute_strip:
  "compute_coverage_per_function (strip_zero ide_cov) = compute_coverage_per_function ide_cov"
  by (simp add: compute_coverage_per_function_def fn_names_strip cover_items_strip)

lemma colliding_count:
  assumes "(p, r) \<in> set (entries ide_cov)" and "0 < coverageHits r"
    and "(p', r') \<in> set (entries ide_cov)" and "0 < coverageHits r'"
    and "(p', r') \<noteq> (p, r)" and "name r' = name r"
  shows "2 \<le> count_list (fn_names_of ide_cov) (name r)"
  unfolding fn_names_entries
  using assms
  by (intro count_two [where x = "(p, r)" and y = "(p', r')"]) auto

lemma output_from_assignment:
  assumes "map_of (compute_coverage_per_function ide_cov) k = Some v"
  shows "\<exists>e \<in> set (entries ide_cov). coverageHits (snd e) \<noteq> 0 \<and>
    k = key_of (fn_names_of ide_cov) e \<and> v = coverageHits (snd e)"
proof -
  from assms have "(k, v) \<in> set (assignments (fn_names_of ide_cov) (entries ide_cov))"
    unfolding compute_assignments by (auto dest: map_of_SomeD)
  then show ?thesis by (auto simp: assignments_def)
qed

lemma qualified_key_inj:
  assumes "xs @ '':'' @ a = ys @ '':'' @ b"
    and "CHR '':'' \<notin> set a" and "CHR '':'' \<notin> set b"
  shows "xs = ys \<and> a = b"
proof -
  from assms(1) have "rev a @ CHR '':'' # rev xs = rev b @ CHR '':'' # rev ys"
    by (metis append_Cons append_Nil rev.simps(2) rev_append rev_rev_ident append_assoc)
  moreover have "takeWhile (\<lambda>c. c \<noteq> CHR '':'') (rev a @ CHR '':'' # rev xs) = rev a"
    using assms(2) by (auto simp: takeWhile_tail)
  moreover have "takeWhile (\<lambda>c. c \<noteq> CHR '':'') (rev b @ CHR '':'' # rev ys) = rev b"
    using assms(3) by (auto simp: takeWhile_tail)
  ultimately have "rev a = rev b" by simp
  then have "a = b" by simp
  with assms(1) show ?thesis by simp
qed

lemma assignment_mem:
  "e \<in> set es \<Longrightarrow> coverageHits (snd e) \<noteq> 0 \<Longrightarrow>
   (key_of ns e, coverageHits (snd e)) \<in> set (assignments ns es)"
  by (auto simp: assignments_def intro!: rev_image_eqI [where x = e])

lemma assignment_elim:
  assumes "(k, v) \<in> set (assignments ns es)"
  obtains e where "e \<in> set es" and "coverageHits (snd e) \<noteq> 0"
    and "key_of ns e = k" and "v = coverageHits (snd e)"
  using assms by (auto simp: assignments_def)

lemma colliding_keyed_by_path:
  assumes "(p, r) \<in> set (entries ide_cov)" and "0 < coverageHits r"
    and "(p', r') \<in> set (entries ide_cov)" and "0 < coverageHits r'"
    and "p' \<noteq> p" and "name r' = name r"
  shows "\<exists>v. map_of (compute_coverage_per_function ide_cov) (p @ '':'' @ name r) = Some v"
    and "(\<forall>e \<in> set (entries ide_cov). CHR '':'' \<notin> set (name (snd e))) \<Longrightarrow>
      (\<forall>e \<in> set (entries ide_cov). fst e = p \<and> name (snd e) = name r \<and>
         coverageHits (snd e) \<noteq> 0 \<longrightarrow> coverageHits (snd e) = coverageHits r) \<Longrightarrow>
      map_of (compute_coverage_per_function ide_cov) (p @ '':'' @ name r) = Some (coverageHits r)"
proof -
  let ?ns = "fn_names_of ide_cov"
  let ?as = "assignments ?ns (entries ide_cov)"
  have ne: "(p', r') \<noteq> (p, r)" using assms(5) by simp
  have "2 \<le> count_list ?ns (name r)"
    using assms(1,2,3,4) ne assms(6) by (rule colliding_count)
  then have key: "key_of ?ns (p, r) = p @ '':'' @ name r"
    by (simp add: key_of_def)
  have "coverageHits (snd (p, r)) \<noteq> 0" using assms(2) by simp
  from assignment_mem [OF assms(1) this, of ?ns]
  have mem: "(p @ '':'' @ name r, coverageHits r) \<in> set (rev ?as)"
    by (simp add: key)
  then show "\<exists>v. map_of (compute_coverage_per_function ide_cov) (p @ '':'' @ name r) = Some v"
    unfolding compute_assignments by (meson weak_map_of_SomeI)
  assume colon: "\<forall>e \<in> set (entries ide_cov). CHR '':'' \<notin> set (name (snd e))"
    and same: "\<forall>e \<in> set (entries ide_cov). fst e = p \<and> name (snd e) = name r \<and>
         coverageHits (snd e) \<noteq> 0 \<longrightarrow> coverageHits (snd e) = coverageHits r"
  have all: "v' = coverageHits r" if "(p @ '':'' @ name r, v') \<in> set (rev ?as)" for v'
  proof -
    from that have "(p @ '':'' @ name r, v') \<in> set ?as" by simp
    then obtain e where e: "e \<in> set (entries ide_cov)" "coverageHits (snd e) \<noteq> 0"
      "key_of ?ns e = p @ '':'' @ name r" "v' = coverageHits (snd e)"
      by (rule assignment_elim)
    have cr: "CHR '':'' \<notin> set (name r)" using colon assms(1) by fastforce
    have ce: "CHR '':'' \<notin> set (name (snd e))" using colon e(1) by blast
    show ?thesis
    proof (cases "1 < count_list ?ns (name (snd e))")
      case True
      with e(3) have "fst e @ '':'' @ name (snd e) = p @ '':'' @ name r"
        by (simp add: key_of_def)
      from qualified_key_inj [OF this ce cr] have "fst e = p" "name (snd e) = name r" by auto
      with same e show ?thesis by blast
    next
      case False
      with e(3) have "name (snd e) = p @ '':'' @ name r" by (simp add: key_of_def)
      then have "CHR '':'' \<in> set (name (snd e))" by simp
      with ce show ?thesis by simp
    qed
  qed
  from map_of_all_same [OF mem] all
  show "map_of (compute_coverage_per_function ide_cov) (p @ '':'' @ name r) =
      Some (coverageHits r)"
    unfolding compute_assignments by blast
qed


lemma unique_keyed_by_name:
  assumes "(p, r) \<in> set (entries ide_cov)" and "0 < coverageHits r"
    and "count_list (fn_names_of ide_cov) (name r) = 1"
    and "\<forall>e \<in> set (entries ide_cov). 0 \<le> coverageHits (snd e)"
    and "CHR '':'' \<notin> set (name r)"
  shows "map_of (compute_coverage_per_function ide_cov) (name r) = Some (coverageHits r)"
proof -
  let ?ns = "fn_names_of ide_cov"
  let ?as = "assignments ?ns (entries ide_cov)"
  have key: "key_of ?ns (p, r) = name r"
    using assms(3) by (simp add: key_of_def)
  have "coverageHits (snd (p, r)) \<noteq> 0" using assms(2) by simp
  from assignment_mem [OF assms(1) this, of ?ns]
  have mem: "(name r, coverageHits r) \<in> set (rev ?as)"
    by (simp add: key)
  have all: "v' = coverageHits r" if "(name r, v') \<in> set (rev ?as)" for v'
  proof -
    from that have "(name r, v') \<in> set ?as" by simp
    then obtain e where e: "e \<in> set (entries ide_cov)" "coverageHits (snd e) \<noteq> 0"
      "key_of ?ns e = name r" "v' = coverageHits (snd e)"
      by (rule assignment_elim)
    from assms(4) e(1) have "0 \<le> coverageHits (snd e)" by blast
    with e(2) have pos: "0 < coverageHits (snd e)" by simp
    show ?thesis
    proof (cases "1 < count_list ?ns (name (snd e))")
      case True
      with e(3) have "fst e @ '':'' @ name (snd e) = name r" by (simp add: key_of_def)
      then have "set (name r) = set (fst e @ '':'' @ name (snd e))" by simp
      then have "CHR '':'' \<in> set (name r)" by simp
      with assms(5) show ?thesis by simp
    next
      case False
      with e(3) have n: "name (snd e) = name r" by (simp add: key_of_def)
      show ?thesis
      proof (cases "e = (p, r)")
        case True
        with e(4) show ?thesis by simp
      next
        case ne: False
        have e': "(fst e, snd e) \<in> set (entries ide_cov)" using e(1) by simp
        have ne': "(fst e, snd e) \<noteq> (p, r)" using ne by simp
        have "2 \<le> count_list ?ns (name r)"
          using assms(1,2) e' pos ne' n by (rule colliding_count)
        with assms(3) show ?thesis by simp
      qed
    qed
  qed
  from map_of_all_same [OF mem] all show ?thesis
    unfolding compute_assignments by blast
qed


text \<open>
  C5. Records with hit count 0 are left out: removing them from the mapping does not
  change the result, and every entry of the result is the key and the non-zero count of
  some record. A record with a positive count whose name is also the name of a record
  with a positive count in another file has the key \<open>path:name\<close> in the result, and
  that key carries its count if no name contains a colon and the records of its file
  with that name agree on the count. A record with a positive count whose name occurs
  once among the names of the records with a positive count has its bare name as key,
  with its count, provided that no count is negative and the name contains no colon.
\<close>

theorem per_function_coverage_keys:
  "compute_coverage_per_function (strip_zero ide_cov) = compute_coverage_per_function ide_cov \<and>
   (\<forall>k v. map_of (compute_coverage_per_function ide_cov) k = Some v \<longrightarrow>
      (\<exists>e \<in> set (entries ide_cov). coverageHits (snd e) \<noteq> 0 \<and>
         k = key_of (fn_names_of ide_cov) e \<and> v = coverageHits (snd e))) \<and>
   ((p, r) \<in> set (entries ide_cov) \<and> 0 < coverageHits r \<and>
    (p', r') \<in> set (entries ide_cov) \<and> 0 < coverageHits r' \<and> p' \<noteq> p \<and> name r' = name r \<longrightarrow>
      (\<exists>v. map_of (compute_coverage_per_function ide_cov) (p @ '':'' @ name r) = Some v) \<and>
      ((\<forall>e \<in> set (entries ide_cov). CHR '':'' \<notin> set (name (snd e))) \<and>
       (\<forall>e \<in> set (entries ide_cov). fst e = p \<and> name (snd e) = name r \<and>
          coverageHits (snd e) \<noteq> 0 \<longrightarrow> coverageHits (snd e) = coverageHits r) \<longrightarrow>
        map_of (compute_coverage_per_function ide_cov) (p @ '':'' @ name r) =
          Some (coverageHits r))) \<and>
   ((p, r) \<in> set (entries ide_cov) \<and> 0 < coverageHits r \<and>
    count_list (fn_names_of ide_cov) (name r) = 1 \<and>
    (\<forall>e \<in> set (entries ide_cov). 0 \<le> coverageHits (snd e)) \<and>
    CHR '':'' \<notin> set (name r) \<longrightarrow>
      map_of (compute_coverage_per_function ide_cov) (name r) = Some (coverageHits r))"
proof (intro conjI allI impI)
  show "compute_coverage_per_function (strip_zero ide_cov) =
      compute_coverage_per_function ide_cov"
    by (rule compute_strip)
next
  fix k v
  assume "map_of (compute_coverage_per_function ide_cov) k = Some v"
  then show "\<exists>e \<in> set (entries ide_cov). coverageHits (snd e) \<noteq> 0 \<and>
      k = key_of (fn_names_of ide_cov) e \<and> v = coverageHits (snd e)"
    by (rule output_from_assignment)
next
  assume a: "(p, r) \<in> set (entries ide_cov) \<and> 0 < coverageHits r \<and>
    (p', r') \<in> set (entries ide_cov) \<and> 0 < coverageHits r' \<and> p' \<noteq> p \<and> name r' = name r"
  then show "\<exists>v. map_of (compute_coverage_per_function ide_cov) (p @ '':'' @ name r) = Some v"
    using colliding_keyed_by_path(1) [of p r ide_cov p' r'] by blast
  assume "(\<forall>e \<in> set (entries ide_cov). CHR '':'' \<notin> set (name (snd e))) \<and>
       (\<forall>e \<in> set (entries ide_cov). fst e = p \<and> name (snd e) = name r \<and>
          coverageHits (snd e) \<noteq> 0 \<longrightarrow> coverageHits (snd e) = coverageHits r)"
  with a show "map_of (compute_coverage_per_function ide_cov) (p @ '':'' @ name r) =
      Some (coverageHits r)"
    using colliding_keyed_by_path(2) [of p r ide_cov p' r'] by blast
next
  assume "(p, r) \<in> set (entries ide_cov) \<and> 0 < coverageHits r \<and>
    count_list (fn_names_of ide_cov) (name r) = 1 \<and>
    (\<forall>e \<in> set (entries ide_cov). 0 \<le> coverageHits (snd e)) \<and>
    CHR '':'' \<notin> set (name r)"
  then show "map_of (compute_coverage_per_function ide_cov) (name r) = Some (coverageHits r)"
    using unique_keyed_by_name [of p r ide_cov] by blast
qed

lemma example_cov_facts:
  "entries example_cov =
     [(''a.sol'', \<lparr>name = ''f'', coverageHits = 3\<rparr>), (''a.sol'', \<lparr>name = ''g'', coverageHits = 0\<rparr>),
      (''b.sol'', \<lparr>name = ''f'', coverageHits = 2\<rparr>), (''b.sol'', \<lparr>name = ''h'', coverageHits = 1\<rparr>)]"
  "fn_names_of example_cov = [''f'', ''f'', ''h'']"
  by (simp_all add: example_cov_def entries_def fn_names_of_def)

theorem per_function_coverage_keys_witness:
  "map_of (compute_coverage_per_function example_cov) ''a.sol:f'' = Some 3 \<and>
   map_of (compute_coverage_per_function example_cov) ''h'' = Some 1 \<and>
   compute_coverage_per_function example_cov = [(''a.sol:f'', 3), (''b.sol:f'', 2), (''h'', 1)]"
proof -
  have c: "compute_coverage_per_function example_cov = [(''a.sol:f'', 3), (''b.sol:f'', 2), (''h'', 1)]"
    by (simp add: compute_coverage_per_function_def example_cov_def fn_names_of_def)
  have "map_of (compute_coverage_per_function example_cov)
      (''a.sol'' @ '':'' @ name \<lparr>name = ''f'', coverageHits = 3\<rparr>) =
      Some (coverageHits \<lparr>name = ''f'', coverageHits = 3\<rparr>)"
    using per_function_coverage_keys [of example_cov "''a.sol''"
        "\<lparr>name = ''f'', coverageHits = 3\<rparr>" "''b.sol''" "\<lparr>name = ''f'', coverageHits = 2\<rparr>"]
    by (simp add: example_cov_facts)
  moreover have "map_of (compute_coverage_per_function example_cov)
      (name \<lparr>name = ''h'', coverageHits = 1\<rparr>) = Some (coverageHits \<lparr>name = ''h'', coverageHits = 1\<rparr>)"
    using per_function_coverage_keys [of example_cov "''b.sol''"
        "\<lparr>name = ''h'', coverageHits = 1\<rparr>" "''b.sol''" "\<lparr>name = ''h'', coverageHits = 1\<rparr>"]
    by (simp add: example_cov_facts)
  ultimately show ?thesis using c by simp
qed

section \<open>The poll loop\<close>

lemma queue_get_finished_after [simp]:
  "finished_after (snd (queue_get h)) = finished_after h"
  by (simp add: queue_get_def split: list.splits)

lemma visit_dead:
  assumes "finished_after h = None"
  shows "visit merge passive verbose_coverage remaining i h st =
    Some (Inr (False, snd (queue_get h),
      drain merge passive verbose_coverage i (fst (queue_get h)) st))"
  using assms by (simp add: visit_def event_wait_def split: prod.splits)

lemma visit_all_keeps_dead:
  assumes "visit_all merge passive verbose_coverage todo kept remaining st = Some (Inr (kept', st'))"
    and "\<exists>ph \<in> set todo \<union> set kept. finished_after (snd ph) = None"
  shows "\<exists>ph \<in> set kept'. finished_after (snd ph) = None"
  using assms
proof (induction todo arbitrary: kept remaining st)
  case Nil
  then show ?case by auto
next
  case (Cons a todo)
  obtain i h where a: "a = (i, h)" by (cases a)
  show ?case
  proof (cases "finished_after h = None")
    case True
    from Cons.prems(1) have
      "visit_all merge passive verbose_coverage todo (kept @ [(i, snd (queue_get h))]) remaining
         (drain merge passive verbose_coverage i (fst (queue_get h)) st) = Some (Inr (kept', st'))"
      by (simp add: a visit_dead [OF True])
    moreover have "\<exists>ph \<in> set todo \<union> set (kept @ [(i, snd (queue_get h))]).
        finished_after (snd ph) = None"
      using True by simp
    ultimately show ?thesis by (rule Cons.IH)
  next
    case False
    with Cons.prems(2) have d: "\<exists>ph \<in> set todo \<union> set kept. finished_after (snd ph) = None"
      by (auto simp: a)
    from Cons.prems(1) obtain fin h' st1 where
      v: "visit merge passive verbose_coverage remaining i h st = Some (Inr (fin, h', st1))"
      by (auto simp: a split: option.splits sum.splits)
    show ?thesis
    proof (cases fin)
      case True
      with Cons.prems(1) v have
        "visit_all merge passive verbose_coverage todo kept (remaining - 1) st1 =
           Some (Inr (kept', st'))"
        by (simp add: a)
      from this d show ?thesis by (rule Cons.IH)
    next
      case False
      with Cons.prems(1) v have
        "visit_all merge passive verbose_coverage todo (kept @ [(i, h')]) remaining st1 =
           Some (Inr (kept', st'))"
        by (simp add: a)
      moreover from d have
        "\<exists>ph \<in> set todo \<union> set (kept @ [(i, h')]). finished_after (snd ph) = None"
        by auto
      ultimately show ?thesis by (rule Cons.IH)
    qed
  qed
qed

lemma poll_loop_dead:
  assumes "poll_loop merge passive verbose_coverage processes st = Some r"
    and "\<exists>ph \<in> set processes. finished_after (snd ph) = None"
  shows "\<exists>err. r = Inl err"
proof -
  have "(\<exists>ph \<in> set processes. finished_after (snd ph) = None) \<longrightarrow> (\<exists>err. r = Inl err)"
  proof (rule poll_loop.raw_induct
      [where P = "\<lambda>merge passive verbose_coverage processes st r.
         (\<exists>ph \<in> set processes. finished_after (snd ph) = None) \<longrightarrow> (\<exists>err. r = Inl err)",
       OF _ assms(1)])
    fix f m pa vc ps s y
    assume IH: "\<And>m pa vc ps s y.
        f m pa vc ps s = Some y \<Longrightarrow>
        (\<exists>ph \<in> set ps. finished_after (snd ph) = None) \<longrightarrow> (\<exists>err. y = Inl err)"
      and eq: "(if ps = []
        then Some (Inr (s\<lparr>out := out s @ [ProgressFinished]\<rparr>))
        else Option.bind
          (visit_all m pa vc ps [] (int (length ps)) s)
          (\<lambda>r. case r of Inl err \<Rightarrow> Some (Inl err)
             | Inr (processes', st') \<Rightarrow> f m pa vc processes' st')) =
        Some y"
    show "(\<exists>ph \<in> set ps. finished_after (snd ph) = None) \<longrightarrow> (\<exists>err. y = Inl err)"
    proof
      assume d: "\<exists>ph \<in> set ps. finished_after (snd ph) = None"
      then have "ps \<noteq> []" by auto
      with eq obtain x where
        x: "visit_all m pa vc ps [] (int (length ps)) s = Some x"
        and rest: "(case x of Inl err \<Rightarrow> Some (Inl err)
          | Inr (processes', st') \<Rightarrow> f m pa vc processes' st') = Some y"
        by (auto simp: bind_eq_Some_conv)
      show "\<exists>err. y = Inl err"
      proof (cases x)
        case (Inl err)
        with rest show ?thesis by auto
      next
        case (Inr b)
        obtain ps' s' where b: "b = (ps', s')" by (cases b)
        from x Inr b d have "\<exists>ph \<in> set ps'. finished_after (snd ph) = None"
          by (intro visit_all_keeps_dead [where todo = ps and kept = "[]"]) auto
        moreover from rest Inr b have "f m pa vc ps' s' = Some y"
          by simp
        ultimately show ?thesis using IH by blast
      qed
    qed
  qed
  with assms(2) show ?thesis by blast
qed


lemma visit_all_all_dead:
  assumes "\<forall>ph \<in> set todo \<union> set kept. finished_after (snd ph) = None"
  shows "\<exists>kept' st'.
    visit_all merge passive verbose_coverage todo kept remaining st = Some (Inr (kept', st')) \<and>
    length kept' = length kept + length todo \<and>
    (\<forall>ph \<in> set kept'. finished_after (snd ph) = None)"
  using assms
proof (induction todo arbitrary: kept st)
  case Nil
  then show ?case by simp
next
  case (Cons a todo)
  obtain i h where a: "a = (i, h)" by (cases a)
  from Cons.prems have h: "finished_after h = None" by (simp add: a)
  from Cons.prems have
    "\<forall>ph \<in> set todo \<union> set (kept @ [(i, snd (queue_get h))]). finished_after (snd ph) = None"
    by (auto simp: a)
  from Cons.IH [OF this, of "drain merge passive verbose_coverage i (fst (queue_get h)) st"]
  show ?case by (simp add: a visit_dead [OF h])
qed

lemma poll_loop_all_dead:
  assumes "processes \<noteq> []"
    and "\<forall>ph \<in> set processes. finished_after (snd ph) = None"
  shows "poll_loop merge passive verbose_coverage processes st = None"
proof (rule ccontr)
  assume "poll_loop merge passive verbose_coverage processes st \<noteq> None"
  then obtain r where r: "poll_loop merge passive verbose_coverage processes st = Some r"
    by auto
  have "\<not> (processes \<noteq> [] \<and> (\<forall>ph \<in> set processes. finished_after (snd ph) = None))"
  proof (rule poll_loop.raw_induct
      [where P = "\<lambda>merge passive verbose_coverage processes st r.
         \<not> (processes \<noteq> [] \<and> (\<forall>ph \<in> set processes. finished_after (snd ph) = None))",
       OF _ r])
    fix f m pa vc ps s y
    assume IH: "\<And>m pa vc ps s y.
        f m pa vc ps s = Some y \<Longrightarrow>
        \<not> (ps \<noteq> [] \<and> (\<forall>ph \<in> set ps. finished_after (snd ph) = None))"
      and eq: "(if ps = []
        then Some (Inr (s\<lparr>out := out s @ [ProgressFinished]\<rparr>))
        else Option.bind
          (visit_all m pa vc ps [] (int (length ps)) s)
          (\<lambda>r. case r of Inl err \<Rightarrow> Some (Inl err)
             | Inr (processes', st') \<Rightarrow> f m pa vc processes' st')) =
        Some y"
    show "\<not> (ps \<noteq> [] \<and> (\<forall>ph \<in> set ps. finished_after (snd ph) = None))"
    proof
      assume d: "ps \<noteq> [] \<and> (\<forall>ph \<in> set ps. finished_after (snd ph) = None)"
      then have "\<forall>ph \<in> set ps \<union> set []. finished_after (snd ph) = None" by simp
      from visit_all_all_dead [OF this, of m pa vc "int (length ps)" s]
      obtain ps' s' where
        v: "visit_all m pa vc ps [] (int (length ps)) s = Some (Inr (ps', s'))"
        and l: "length ps' = length ps"
        and a: "\<forall>ph \<in> set ps'. finished_after (snd ph) = None"
        by auto
      from eq d v have "f m pa vc ps' s' = Some y" by simp
      from IH [OF this] l a d show False by auto
    qed
  qed
  with assms show False by simp
qed

lemma start_process_unknown_network:
  assumes "setup_node (w_port w) (w_network w) = Inl err"
  shows "finished_after (snd (start_process env delay snaps w)) = None"
  using assms by (simp add: start_process_def observed_def run_def)

lemma setup_node_unknown:
  assumes "network_id \<notin> {''anvil'', ''ganache'', ''hardhat''}"
  shows "setup_node port network_id =
    Inl (PyExn ''ValueError'' (''Unknown network ID '' @ [CHR 0x27] @ network_id @ [CHR 0x27]))"
  using assms by (simp add: setup_node_def)

lemma spawn_network:
  "w \<in> set (spawn sanitize_filename logs_dir module fname passive network_id cov_proc_num
      process_count random_seeds) \<Longrightarrow> w_network w = network_id"
  by (auto simp: spawn_def Let_def)

lemma make_seeds_length:
  "nat process_count \<le> length (fst (make_seeds process_count seeds src))"
proof (cases "int (length seeds) < process_count")
  case True
  have "length (fst (append_random k rs src)) = length rs + k" for k rs
    by (induction k arbitrary: rs src) (auto simp: os_urandom_def)
  with True show ?thesis by (simp add: make_seeds_def)
next
  case False
  then show ?thesis by (simp add: make_seeds_def)
qed

lemma fuzz_unknown_network:
  assumes "network_id \<notin> {''anvil'', ''ganache'', ''hardhat''}" and "0 < process_count"
  shows "fuzz sanitize_filename merge src inp world module fname process_count seeds logs_dir
    passive network_id cov_proc_num verbose_coverage = None"
proof -
  let ?workers = "spawn sanitize_filename logs_dir module fname passive network_id cov_proc_num
      process_count (fst (make_seeds process_count seeds src))"
  let ?processes = "map (\<lambda>w. case world (w_index w) of
      (env, delay, snaps) \<Rightarrow> start_process env delay snaps w) ?workers"
  have "length ?workers = nat process_count"
    using make_seeds_length [of process_count seeds src]
    by (simp add: spawn_def Let_def range_py_def)
  with assms(2) have ne: "?processes \<noteq> []" by auto
  have dead: "\<forall>ph \<in> set ?processes. finished_after (snd ph) = None"
  proof
    fix ph
    assume "ph \<in> set ?processes"
    then obtain w where w: "w \<in> set ?workers"
      and ph: "ph = (case world (w_index w) of
        (env, delay, snaps) \<Rightarrow> start_process env delay snaps w)"
      by auto
    from w have "w_network w = network_id" by (rule spawn_network)
    with assms(1) have "setup_node (w_port w) (w_network w) =
        Inl (PyExn ''ValueError'' (''Unknown network ID '' @ [CHR 0x27] @ network_id @ [CHR 0x27]))"
      by (simp add: setup_node_unknown)
    then show "finished_after (snd ph) = None"
      unfolding ph by (auto split: prod.splits intro: start_process_unknown_network)
  qed
  show ?thesis
    unfolding fuzz_def Let_def by (rule poll_loop_all_dead [OF ne dead])
qed


lemma on_finished_answering:
  assumes "answering (i, h)"
  shows "\<exists>r. on_finished passive remaining i h st = Some r"
  using assms
  by (auto simp: on_finished_def answering_def Let_def
      split: list.splits option.splits prod.splits sum.splits)

lemma queue_get_fields [simp]:
  "err_conn (snd (queue_get h)) = err_conn h"
  "resolves (snd (queue_get h)) = resolves h"
  by (simp_all add: queue_get_def split: list.splits)

lemma visit_answering:
  assumes "answering (i, h)"
  shows "(\<exists>err. visit merge passive verbose_coverage remaining i h st = Some (Inl err)) \<or>
    (\<exists>h' st'. visit merge passive verbose_coverage remaining i h st = Some (Inr (True, h', st'))) \<or>
    (\<exists>h' st'. visit merge passive verbose_coverage remaining i h st = Some (Inr (False, h', st')) \<and>
       answering (i, h') \<and> polls_left [(i, h')] < polls_left [(i, h)])"
proof -
  from assms obtain n where n: "finished_after h = Some n"
    by (auto simp: answering_def)
  show ?thesis
  proof (cases n)
    case 0
    from on_finished_answering [OF assms, of "passive" "remaining - 1" st]
    obtain r where "on_finished passive (remaining - 1) i h st = Some r" by auto
    with 0 n show ?thesis
      by (cases r) (auto simp: visit_def event_wait_def Let_def split: prod.splits)
  next
    case (Suc m)
    with n assms show ?thesis
      by (auto simp: visit_def event_wait_def answering_def polls_left_def Let_def queue_get_def
          split: prod.splits list.splits option.splits)
  qed
qed


lemma polls_left_simps [simp]:
  "polls_left [] = 0"
  "polls_left (xs @ ys) = polls_left xs + polls_left ys"
  by (simp_all add: polls_left_def)

lemma polls_left_Cons: "polls_left (a # xs) = polls_left [a] + polls_left xs"
  by (simp add: polls_left_def)

lemma answering_polls_left: "answering ph \<Longrightarrow> 0 < polls_left [ph]"
  by (auto simp: answering_def polls_left_def)

lemma visit_all_answering:
  assumes "\<forall>ph \<in> set todo \<union> set kept. answering ph"
  shows "(\<exists>err. visit_all merge passive verbose_coverage todo kept remaining st = Some (Inl err)) \<or>
    (\<exists>kept' st'.
       visit_all merge passive verbose_coverage todo kept remaining st = Some (Inr (kept', st')) \<and>
       (\<forall>ph \<in> set kept'. answering ph) \<and>
       polls_left kept' + length todo \<le> polls_left kept + polls_left todo)"
  using assms
proof (induction todo arbitrary: kept remaining st)
  case Nil
  then show ?case by simp
next
  case (Cons a todo)
  obtain i h where a: "a = (i, h)" by (cases a)
  from Cons.prems have ans: "answering (i, h)" by (simp add: a)
  from Cons.prems have rest: "\<forall>ph \<in> set todo \<union> set kept. answering ph" by simp
  from visit_answering [OF ans, of merge "passive" verbose_coverage remaining st]
  consider err where "visit merge passive verbose_coverage remaining i h st = Some (Inl err)"
    | h' st' where "visit merge passive verbose_coverage remaining i h st =
        Some (Inr (True, h', st'))"
    | h' st' where "visit merge passive verbose_coverage remaining i h st =
        Some (Inr (False, h', st'))" "answering (i, h')" "polls_left [(i, h')] < polls_left [(i, h)]"
    by blast
  then show ?case
  proof cases
    case 1
    then show ?thesis by (simp add: a)
  next
    case 2
    from Cons.IH [OF rest, of "remaining - 1" st'] 2 answering_polls_left [OF ans]
    show ?thesis
      by (auto simp: a polls_left_Cons [of "(i, h)" todo])
  next
    case 3
    from rest 3(2) have "\<forall>ph \<in> set todo \<union> set (kept @ [(i, h')]). answering ph" by auto
    from Cons.IH [OF this, of remaining st'] 3
    show ?thesis
      by (auto simp: a polls_left_Cons [of "(i, h)" todo])
  qed
qed

text \<open>
  The loop returns when every worker answers: with a result, or with the
  \<^verbatim>\<open>EOFError\<close> of a prompt that found no line.
\<close>

lemma poll_loop_returns:
  assumes "\<forall>ph \<in> set processes. answering ph"
  shows "\<exists>r. poll_loop merge passive verbose_coverage processes st = Some r"
  using assms
proof (induction "polls_left processes" arbitrary: processes st rule: less_induct)
  case less
  show ?case
  proof (cases "processes = []")
    case True
    then show ?thesis by (simp add: poll_loop.simps)
  next
    case False
    from less.prems have "\<forall>ph \<in> set processes \<union> set []. answering ph" by simp
    from visit_all_answering [OF this, of merge "passive" verbose_coverage
        "int (length processes)" st]
    consider err where "visit_all merge passive verbose_coverage processes []
          (int (length processes)) st = Some (Inl err)"
      | kept' st' where "visit_all merge passive verbose_coverage processes []
          (int (length processes)) st = Some (Inr (kept', st'))"
        "\<forall>ph \<in> set kept'. answering ph"
        "polls_left kept' + length processes \<le> polls_left processes"
      by auto
    then show ?thesis
    proof cases
      case 1
      with False show ?thesis by (simp add: poll_loop.simps [of _ _ _ processes])
    next
      case 2
      from 2(3) False have "polls_left kept' < polls_left processes"
        by (cases processes) auto
      from less.hyps [OF this 2(2), of st']
      obtain r where "poll_loop merge passive verbose_coverage kept' st' = Some r" by auto
      with 2(1) False show ?thesis by (simp add: poll_loop.simps [of _ _ _ processes])
    qed
  qed
qed

lemma build_args_coverage:
  assumes "set params \<subseteq> {''coverage''}"
  shows "\<exists>args'. build_args fname cov params args = Inr args'"
  using assms by (induction params arbitrary: args) (auto split: option.splits)

lemma run_returns:
  assumes "setup_node port network_id = Inr chain_process"
    and "connect_loop port (refusals env) = (cevs, None)"
    and "build_args (test_name env) cov (test_params env) [] = Inr args"
    and "test_raises env = None"
  shows "fst (run env index port random_seed log_file tee network_id cov) =
     [PicklingInstall, RandomSeed random_seed, Spawn (popen_args chain_process),
       SetExceptionHandler] @ cevs @
      (if tee then [] else [LoggingBasicConfig log_file, OpenWrite log_file]) @
      map Enter (log_scopes tee log_file) @
      PrintSeed random_seed index #
      (if reset_supported env then [ChainReset]
       else [ChainReset, LogWarning ''Development chain does not support resetting'']) @
      [CallTest args, ErrSend None, FinishedSet] @
      map Exit (log_scopes tee log_file) @
      [GenExit, OpenAppend log_file, Kill, CloseAppend log_file]"
  using assms
  by (simp add: run_def run_core_def call_test_def Let_def)

lemma observed_answering:
  assumes "setup_node port network_id = Inr chain_process"
    and "snd (connect_loop port (refusals env)) = None"
    and "set (test_params env) \<subseteq> {''coverage''}"
  shows "answering (i, observed delay snaps
    (run env index port random_seed log_file tee network_id cov))"
proof -
  obtain cevs where c: "connect_loop port (refusals env) = (cevs, None)"
    using assms(2) by (cases "connect_loop port (refusals env)") auto
  have quiet: "sent cevs = []"
    using connect_loop_quiet(3) [of port "refusals env"] c by simp
  from build_args_coverage [OF assms(3)] obtain args where
    b: "build_args (test_name env) cov (test_params env) [] = Inr args" by blast
  show ?thesis
  proof (cases "test_raises env")
    case None
    note tr = run_returns [OF assms(1) c b None, of index random_seed log_file tee]
    show ?thesis
      unfolding answering_def observed_def tr using quiet by simp
  next
    case (Some e)
    note tr = run_raises [OF assms(1) c b Some, of index random_seed log_file tee]
    show ?thesis
      unfolding answering_def observed_def tr using quiet by simp
  qed
qed

text \<open>
  \<^verbatim>\<open>fuzz\<close> returns when the network kind is known, every worker gets its connection
  and the test function declares no parameter but \<^verbatim>\<open>coverage\<close>: with a result, or
  with the \<^verbatim>\<open>EOFError\<close> of a prompt.
\<close>

lemma fuzz_returns:
  assumes "network_id \<in> {''anvil'', ''ganache'', ''hardhat''}"
    and "\<And>i env delay snaps. world i = (env, delay, snaps) \<Longrightarrow>
      snd (connect_loop (8545 + i) (refusals env)) = None \<and>
      set (test_params env) \<subseteq> {''coverage''}"
  shows "\<exists>r. fuzz sanitize_filename merge src inp world module fname process_count seeds
    logs_dir passive network_id cov_proc_num verbose_coverage = Some r"
proof -
  let ?workers = "spawn sanitize_filename logs_dir module fname passive network_id cov_proc_num
      process_count (fst (make_seeds process_count seeds src))"
  let ?processes = "map (\<lambda>w. case world (w_index w) of
      (env, delay, snaps) \<Rightarrow> start_process env delay snaps w) ?workers"
  have "\<forall>ph \<in> set ?processes. answering ph"
  proof
    fix ph
    assume "ph \<in> set ?processes"
    then obtain w where w: "w \<in> set ?workers"
      and ph: "ph = (case world (w_index w) of
        (env, delay, snaps) \<Rightarrow> start_process env delay snaps w)"
      by auto
    obtain env delay snaps where e: "world (w_index w) = (env, delay, snaps)"
      by (cases "world (w_index w)")
    from w have n: "w_network w = network_id" by (rule spawn_network)
    from w have p: "w_port w = 8545 + w_index w" by (auto simp: spawn_def Let_def)
    from assms(1) n obtain chain_process where
      "setup_node (w_port w) (w_network w) = Inr chain_process"
      by (auto simp: setup_node_def)
    moreover from assms(2) [OF e] p have
      "snd (connect_loop (w_port w) (refusals env)) = None"
      "set (test_params env) \<subseteq> {''coverage''}"
      by simp_all
    ultimately have "answering (w_index w, observed delay snaps
        (run env (w_index w) (w_port w) (w_seed w) (w_log w) (w_tee w) (w_network w) (w_cov w)))"
      by (rule observed_answering)
    then show "answering ph"
      by (simp add: ph e start_process_def)
  qed
  then show ?thesis
    unfolding fuzz_def Let_def by (rule poll_loop_returns)
qed

text \<open>
  C4, as stated, fails: with an unknown network kind the only worker ends in
  \<^verbatim>\<open>_setup\<close> without setting its event or writing to its pipe, and \<^verbatim>\<open>fuzz\<close>
  does not return.
\<close>

theorem silent_worker_hangs_campaign:
  "fuzz (\<lambda>s. s) (\<lambda>exports. []) (\<lambda>k. 0) [] (\<lambda>i. (example_env, 0, []))
     ''tests'' ''test_fuzz'' 1 [] ''logs'' False ''geth'' 0 False = None"
  by (rule fuzz_unknown_network) simp_all

text \<open>
  C4, amended. While one worker of \<^verbatim>\<open>processes\<close> never sets its completion signal,
  the poll loop of the orchestrator never runs to completion: there is no maximum
  waiting time and no check that the process is alive.
\<close>

theorem poll_loop_never_completes_with_silent_worker:
  assumes "(i, h) \<in> set processes" and "finished_after h = None"
  shows "poll_loop merge passive verbose_coverage processes st \<noteq> Some (Inr st')"
proof
  assume "poll_loop merge passive verbose_coverage processes st = Some (Inr st')"
  moreover from assms have "\<exists>ph \<in> set processes. finished_after (snd ph) = None"
    by force
  ultimately have "\<exists>err. Inr st' = (Inl err :: py_exn + orch)"
    by (rule poll_loop_dead)
  then show False by simp
qed

theorem poll_loop_never_completes_with_silent_worker_witness:
  "(0, silent_handle) \<in> set [(0, silent_handle)] \<and> finished_after silent_handle = None \<and>
   poll_loop (\<lambda>exports. []) False False [(0, silent_handle)] empty_orch \<noteq>
     Some (Inr empty_orch)"
proof -
  have m: "(0, silent_handle) \<in> set [(0, silent_handle)]" by simp
  have d: "finished_after silent_handle = None" by (simp add: silent_handle_def)
  show ?thesis
    using m d poll_loop_never_completes_with_silent_worker [OF m d] by simp
qed

end
